theory Spec2Isabelle
  imports Complex_Main "HOL-Library.Multiset" "HOL-Library.Char_ord" "HOL-Library.List_Lexorder"
    "HOL-Library.Log_Nat"
begin

section \<open>Python values used by the program\<close>

text \<open>
  Exceptions are values.  Every \<open>raise\<close> of the program and of the built-ins it calls is a
  branch returning \<open>Inl\<close> of one of these.
\<close>

datatype py_error = ValueError | TypeError | ZeroDivisionError | OSError

subsection \<open>Characters and strings\<close>

text \<open>
  A Python \<open>str\<close> is a sequence of code points.  The embedding covers the code points
  \<open>0\<close> to \<open>255\<close>: a \<^typ>\<open>char\<close> stands for the code point \<^term>\<open>of_char c :: nat\<close>, and a file
  name is a \<^typ>\<open>string\<close>.  Among these code points

  \<^item> the regular expression class \<^verbatim>\<open>\d\<close> (Unicode category Nd) holds exactly \<open>0\<close> to \<open>9\<close>;
  \<^item> \<^verbatim>\<open>str.isdigit\<close> (Numeric_Type Digit or Decimal) also accepts the superscripts
    U+00B2, U+00B3 and U+00B9, which \<^verbatim>\<open>\d\<close> and \<^verbatim>\<open>int\<close> reject;
  \<^item> \<^verbatim>\<open>str.lower\<close> adds 32 to \<open>A\<close>-\<open>Z\<close>, U+00C0-U+00D6 and U+00D8-U+00DE and keeps the rest.
\<close>

definition is_decimal :: "char \<Rightarrow> bool" where
  "is_decimal c = (48 \<le> (of_char c :: nat) \<and> (of_char c :: nat) \<le> 57)"

definition chr_isdigit :: "char \<Rightarrow> bool" where
  "chr_isdigit c =
     (is_decimal c \<or> (of_char c :: nat) = 178 \<or> (of_char c :: nat) = 179
      \<or> (of_char c :: nat) = 185)"

definition chr_lower :: "char \<Rightarrow> char" where
  "chr_lower c =
     (let n = (of_char c :: nat)
      in if (65 \<le> n \<and> n \<le> 90) \<or> (192 \<le> n \<and> n \<le> 214) \<or> (216 \<le> n \<and> n \<le> 222)
         then char_of (n + 32) else c)"

text \<open>\<^verbatim>\<open>s.lower()\<close>\<close>

definition lower :: "string \<Rightarrow> string" where
  "lower s = map chr_lower s"

text \<open>\<^verbatim>\<open>s.isdigit()\<close>: every character is a digit and there is at least one.\<close>

definition isdigit :: "string \<Rightarrow> bool" where
  "isdigit s = (s \<noteq> [] \<and> list_all chr_isdigit s)"

text \<open>
  \<^verbatim>\<open>int(s)\<close> on the strings the program passes to it, those with \<^verbatim>\<open>s.isdigit()\<close>: the decimal
  value when every character is a decimal digit, and \<^verbatim>\<open>ValueError\<close> otherwise.  CPython from
  3.11 on also raises \<^verbatim>\<open>ValueError\<close> when the string has more than
  \<^verbatim>\<open>sys.get_int_max_str_digits()\<close> characters, 4300 unless reconfigured.
\<close>

definition int_max_str_digits :: nat where
  "int_max_str_digits = 4300"

definition digit_value :: "char \<Rightarrow> int" where
  "digit_value c = int (of_char c) - 48"

definition decimal :: "string \<Rightarrow> int" where
  "decimal s = foldl (\<lambda>a c. 10 * a + digit_value c) 0 s"

definition py_int :: "string \<Rightarrow> py_error + int" where
  "py_int s =
     (if s \<noteq> [] \<and> list_all is_decimal s \<and> length s \<le> int_max_str_digits
      then Inr (decimal s) else Inl ValueError)"

text \<open>\<^verbatim>\<open>a < b\<close> on \<open>str\<close>: lexicographic on code points, a proper prefix is smaller.\<close>

fun str_lt :: "string \<Rightarrow> string \<Rightarrow> bool" where
  "str_lt [] [] = False"
| "str_lt [] (y # ys) = True"
| "str_lt (x # xs) [] = False"
| "str_lt (x # xs) (y # ys) =
     (if x = y then str_lt xs ys else (of_char x :: nat) < of_char y)"

text \<open>\<^verbatim>\<open>s.startswith(p)\<close>, \<^verbatim>\<open>s.endswith(p)\<close> and \<^verbatim>\<open>sub in s\<close>.\<close>

definition startswith :: "string \<Rightarrow> string \<Rightarrow> bool" where
  "startswith s p = (take (length p) s = p)"

definition endswith :: "string \<Rightarrow> string \<Rightarrow> bool" where
  "endswith s p = (length p \<le> length s \<and> drop (length s - length p) s = p)"

fun contains :: "string \<Rightarrow> string \<Rightarrow> bool" where
  "contains sub [] = (sub = [])"
| "contains sub (c # cs) = (startswith (c # cs) sub \<or> contains sub cs)"

text \<open>
  \<^verbatim>\<open>os.path.basename(p)\<close> of \<^verbatim>\<open>posixpath\<close>: \<^verbatim>\<open>p[p.rfind('/') + 1:]\<close>, what follows the last
  slash, the whole of \<open>p\<close> when it has none.  (On Windows \<^verbatim>\<open>os.path\<close> is \<^verbatim>\<open>ntpath\<close>, which
  also splits at a backslash and at a drive colon; the embedding is of the POSIX module.)
\<close>

definition basename :: "string \<Rightarrow> string" where
  "basename p = rev (takeWhile (\<lambda>c. c \<noteq> CHR ''/'') (rev p))"

text \<open>\<^verbatim>\<open>s.rsplit(".", 1)[-1]\<close>: what follows the last dot, the whole of \<open>s\<close> when it has none.\<close>

definition rsplit_last :: "string \<Rightarrow> string" where
  "rsplit_last s = rev (takeWhile (\<lambda>c. c \<noteq> CHR ''.'') (rev s))"

text \<open>
  A list comprehension \<^verbatim>\<open>[f(x) for x in xs]\<close> whose body may raise: the elements are
  computed from left to right and the first exception ends the comprehension.
\<close>

fun comprehension :: "('a \<Rightarrow> py_error + 'b) \<Rightarrow> 'a list \<Rightarrow> py_error + 'b list" where
  "comprehension f [] = Inr []"
| "comprehension f (x # xs) =
     (case f x of
        Inl e \<Rightarrow> Inl e
      | Inr y \<Rightarrow> (case comprehension f xs of Inl e \<Rightarrow> Inl e | Inr ys \<Rightarrow> Inr (y # ys)))"

subsection \<open>List slicing with step \<open>-1\<close>\<close>

text \<open>
  \<open>xs[start:stop:-1]\<close>.  Python first adjusts both bounds against the length \<open>n\<close>: a negative
  bound has \<open>n\<close> added and is clamped to \<open>-1\<close>, a bound \<open>\<ge> n\<close> is clamped to \<open>n - 1\<close>.
  The slice then reads the indices \<open>start, start - 1, \<dots>\<close> while they are greater than \<open>stop\<close>.
\<close>

definition adjust_index :: "int \<Rightarrow> int \<Rightarrow> int" where
  "adjust_index n i =
     (if i < 0 then (if i + n < 0 then - 1 else i + n)
      else if n \<le> i then n - 1 else i)"

definition slice_down :: "'a list \<Rightarrow> int \<Rightarrow> int \<Rightarrow> 'a list" where
  "slice_down xs start stop =
     (let n = int (length xs);
          a = adjust_index n start;
          b = adjust_index n stop
      in map (\<lambda>i. xs ! nat i) (rev [b + 1 .. a]))"

section \<open>Natural sort key\<close>

text \<open>
  \<^verbatim>\<open>re.findall(r"\d+|\D+", s)\<close>: scanning from the left, each match is the longest run of
  decimal digits at the position or, where there is no digit, the longest run of non-digits
  (\<^verbatim>\<open>\D\<close> is a negated class, so it matches a newline too).
\<close>

function findall_runs :: "string \<Rightarrow> string list" where
  "findall_runs [] = []"
| "findall_runs (c # cs) =
     (if is_decimal c
      then (c # takeWhile is_decimal cs) # findall_runs (dropWhile is_decimal cs)
      else (c # takeWhile (\<lambda>x. \<not> is_decimal x) cs)
             # findall_runs (dropWhile (\<lambda>x. \<not> is_decimal x) cs))"
  by pat_completeness auto
termination
  by (relation "measure length") (auto simp: less_Suc_eq_le length_dropWhile_le)

text \<open>The elements of a key are Python \<open>int\<close> and \<open>str\<close> objects.\<close>

datatype token = PyInt int | PyStr string

text \<open>\<^verbatim>\<open>isinstance(x, int)\<close>: the type of an element of a key.\<close>

fun is_int :: "token \<Rightarrow> bool" where
  "is_int (PyInt n) = True"
| "is_int (PyStr s) = False"

text \<open>\<^verbatim>\<open>int(text) if text.isdigit() else text.lower()\<close>\<close>

definition natural_token :: "string \<Rightarrow> py_error + token" where
  "natural_token text =
     (if isdigit text
      then (case py_int text of Inl e \<Rightarrow> Inl e | Inr n \<Rightarrow> Inr (PyInt n))
      else Inr (PyStr (lower text)))"

definition natural_key :: "string \<Rightarrow> py_error + token list" where
  "natural_key s = comprehension natural_token (findall_runs s)"

text \<open>
  \<^verbatim>\<open>x < y\<close> on two elements: defined between two \<open>int\<close> and between two \<open>str\<close>, and
  \<^verbatim>\<open>TypeError\<close> between an \<open>int\<close> and a \<open>str\<close>.  (\<^verbatim>\<open>x == y\<close> never raises: an \<open>int\<close> and a
  \<open>str\<close> are unequal, which is equality of \<^typ>\<open>token\<close>.)
\<close>

fun token_lt :: "token \<Rightarrow> token \<Rightarrow> py_error + bool" where
  "token_lt (PyInt a) (PyInt b) = Inr (a < b)"
| "token_lt (PyStr a) (PyStr b) = Inr (str_lt a b)"
| "token_lt (PyInt a) (PyStr b) = Inl TypeError"
| "token_lt (PyStr a) (PyInt b) = Inl TypeError"

text \<open>
  \<^verbatim>\<open>a < b\<close> on two lists: Python looks for the first index where the elements are unequal;
  when one list ends first the shorter is the smaller, otherwise the result is \<^verbatim>\<open><\<close> on
  those two elements.
\<close>

fun key_lt :: "token list \<Rightarrow> token list \<Rightarrow> py_error + bool" where
  "key_lt [] [] = Inr False"
| "key_lt [] (y # ys) = Inr True"
| "key_lt (x # xs) [] = Inr False"
| "key_lt (x # xs) (y # ys) = (if x = y then key_lt xs ys else token_lt x y)"

text \<open>
  \<^verbatim>\<open>names.sort(key=natural_key, reverse=r)\<close>.  \<^verbatim>\<open>list.sort\<close> computes the key of every element
  first, then sorts the pairs of key and element by \<^verbatim>\<open><\<close> on the keys; an exception raised by
  the key function or by a comparison leaves the sort.  The sort is stable; with
  \<^verbatim>\<open>reverse=True\<close> CPython reverses the list, sorts it the same way and reverses the result.
  The sorting algorithm itself is modelled by insertion from the left: each element goes
  before the first element of the sorted prefix that it is smaller than.
\<close>

fun insort_key ::
  "token list \<times> 'a \<Rightarrow> (token list \<times> 'a) list \<Rightarrow> py_error + (token list \<times> 'a) list" where
  "insort_key x [] = Inr [x]"
| "insort_key x (y # ys) =
     (case key_lt (fst x) (fst y) of
        Inl e \<Rightarrow> Inl e
      | Inr True \<Rightarrow> Inr (x # y # ys)
      | Inr False \<Rightarrow> (case insort_key x ys of Inl e \<Rightarrow> Inl e | Inr zs \<Rightarrow> Inr (y # zs)))"

fun sort_loop ::
  "(token list \<times> 'a) list \<Rightarrow> (token list \<times> 'a) list \<Rightarrow> py_error + (token list \<times> 'a) list" where
  "sort_loop acc [] = Inr acc"
| "sort_loop acc (x # xs) =
     (case insort_key x acc of Inl e \<Rightarrow> Inl e | Inr acc' \<Rightarrow> sort_loop acc' xs)"

text \<open>
  The pairs of key and element are in ascending order when no later key is smaller than an
  earlier one.
\<close>

definition key_sorted :: "(token list \<times> 'a) list \<Rightarrow> bool" where
  "key_sorted kvs = sorted_wrt (\<lambda>a b. key_lt (fst b) (fst a) = Inr False) kvs"

definition sort_names :: "bool \<Rightarrow> string list \<Rightarrow> py_error + string list" where
  "sort_names reverse names =
     (case comprehension natural_key names of
        Inl e \<Rightarrow> Inl e
      | Inr keys \<Rightarrow>
          (let kvs = zip keys names in
           case sort_loop [] (if reverse then rev kvs else kvs) of
             Inl e \<Rightarrow> Inl e
           | Inr res \<Rightarrow> Inr (map snd (if reverse then rev res else res))))"

section \<open>Archive filter\<close>

definition SUPPORTED_EXTS :: "string set" where
  "SUPPORTED_EXTS =
     {''.png'', ''.jpg'', ''.jpeg'', ''.bmp'', ''.gif'', ''.tif'', ''.tiff'', ''.webp''}"

definition is_valid_zip_image :: "string \<Rightarrow> bool" where
  "is_valid_zip_image name =
     (if startswith name ''__MACOSX/'' \<or> contains ''/__MACOSX/'' name then False
      else let base = basename name in
        if startswith base ''._'' \<or> startswith base ''.'' then False
        else if endswith name ''/'' then False
        else let ext = (if CHR ''.'' \<in> set base then ''.'' @ lower (rsplit_last base) else [])
             in ext \<in> SUPPORTED_EXTS)"

text \<open>\<^verbatim>\<open>[n for n in zf.namelist() if _is_valid_zip_image(n)]\<close>, on the archive's name list.\<close>

definition list_images_in_zip :: "string list \<Rightarrow> string list" where
  "list_images_in_zip namelist = filter is_valid_zip_image namelist"

section \<open>Sequence assembly\<close>

text \<open>
  \<^verbatim>\<open>if reverse_frames and len(frames) > 1: frames = frames + frames[-2:0:-1]\<close>
\<close>

definition boomerang :: "bool \<Rightarrow> 'a list \<Rightarrow> 'a list" where
  "boomerang reverse_frames frames =
     (if reverse_frames \<and> length frames > 1
      then frames @ slice_down frames (- 2) 0
      else frames)"

section \<open>Floating point\<close>

text \<open>
  A Python \<open>float\<close> is an IEEE 754 binary64 number.  The embedding represents a finite float
  by the rational it denotes, and the operations by the exact result rounded to the nearest
  float, ties to the even significand: \<open>fl\<close> rounds a rational to 53 significant bits.
  Overflow and subnormal numbers are not modelled: the values here are quotients and
  products of image dimensions, which lie far inside the normal range.
\<close>

definition round_half_even :: "rat \<Rightarrow> int" where
  "round_half_even x =
     (let f = \<lfloor>x\<rfloor>; d = x - of_int f
      in if d < 1 / 2 then f else if 1 / 2 < d then f + 1 else if even f then f else f + 1)"

text \<open>The exponent \<open>e\<close> with \<open>2\<^sup>e \<le> x < 2\<^sup>e\<^sup>+\<^sup>1\<close>, for positive \<open>x\<close>.\<close>

definition flog2 :: "rat \<Rightarrow> int" where
  "flog2 x =
     (let (a, b) = quotient_of x; e = bitlen a - bitlen b
      in if 2 powi e \<le> x then e else e - 1)"

definition fl :: "rat \<Rightarrow> rat" where
  "fl x =
     (if x = 0 then 0
      else let u = 2 powi (flog2 \<bar>x\<bar> - 52)
           in sgn x * of_int (round_half_even (\<bar>x\<bar> / u)) * u)"

text \<open>
  \<^verbatim>\<open>a / b\<close> on two \<open>int\<close> (the correctly rounded quotient), \<^verbatim>\<open>n * x\<close> on an \<open>int\<close> and a \<open>float\<close>
  (the \<open>int\<close> is converted first), and \<^verbatim>\<open>round(x)\<close>, which rounds a float to the nearest
  \<open>int\<close>, a tie to the even one.
\<close>

definition py_truediv :: "int \<Rightarrow> int \<Rightarrow> py_error + rat" where
  "py_truediv a b = (if b = 0 then Inl ZeroDivisionError else Inr (fl (of_int a / of_int b)))"

definition py_mul_int_float :: "int \<Rightarrow> rat \<Rightarrow> rat" where
  "py_mul_int_float n x = fl (fl (of_int n) * x)"

definition py_round :: "rat \<Rightarrow> int" where
  "py_round x = round_half_even x"

section \<open>Images and the imaging library\<close>

text \<open>
  A Pillow image, as far as the program looks at it: the mode string, the size, the pixels
  in row-major order (each a list of band values between 0 and 255; one palette index in mode
  \<open>P\<close>), the palette, and the \<open>info\<close> dictionary.
\<close>

type_synonym pixel = "nat list"

datatype info_value = IntV int | TupleV "nat list" | BytesV "nat list"

record image =
  mode :: string
  size_wh :: "nat \<times> nat"
  pixels :: "pixel list"
  palette :: "pixel list"
  info :: "(string \<times> info_value) list"

text \<open>
  The archive and the parts of Pillow whose results depend on the codec, the resampling
  filter or the quantizer are parameters of the embedding:

  \<^item> \<open>open_image\<close>: \<^verbatim>\<open>zf.open(name)\<close>, \<^verbatim>\<open>Image.open\<close> and \<^verbatim>\<open>im.load()\<close>, which raise on a missing or
    malformed entry;
  \<^item> \<open>convert_other\<close>: the pixels and \<open>info\<close> of \<^verbatim>\<open>im.convert(mode)\<close> for the conversions that
    are not written out below;
  \<^item> \<open>quantize\<close>: the palette indices, the palette and \<open>info\<close> of
    \<^verbatim>\<open>im.convert("P", palette=ADAPTIVE, colors=n, dither=d)\<close>;
  \<^item> \<open>resample\<close>: the pixels of \<^verbatim>\<open>im.resize(size, method)\<close>;
  \<^item> \<open>alpha_over\<close>: one pixel of \<^verbatim>\<open>Image.alpha_composite\<close>, from the pixel below and the one above;
  \<^item> \<open>contain_size\<close>: the size that \<^verbatim>\<open>ImageOps.contain\<close> computes for an image size and a box;
  \<^item> \<open>save_gif\<close>: the bytes written by \<^verbatim>\<open>save(format="GIF", save_all=True, ...)\<close>.
\<close>

record pil =
  open_image :: "string \<Rightarrow> py_error + image"
  convert_other :: "string \<Rightarrow> image \<Rightarrow> pixel list \<times> (string \<times> info_value) list"
  quantize :: "nat \<Rightarrow> bool \<Rightarrow> image \<Rightarrow> pixel list \<times> pixel list \<times> (string \<times> info_value) list"
  resample :: "string \<Rightarrow> nat \<times> nat \<Rightarrow> image \<Rightarrow> pixel list"
  alpha_over :: "pixel \<Rightarrow> pixel \<Rightarrow> pixel"
  contain_size :: "nat \<times> nat \<Rightarrow> int \<times> int \<Rightarrow> py_error + int \<times> int"
  save_gif :: "image list \<Rightarrow> int \<Rightarrow> int \<Rightarrow> int \<Rightarrow> bool \<Rightarrow> nat list"

text \<open>Sequencing of steps that may raise.\<close>

definition and_then :: "py_error + 'a \<Rightarrow> ('a \<Rightarrow> py_error + 'b) \<Rightarrow> py_error + 'b" where
  "and_then m f = (case m of Inl e \<Rightarrow> Inl e | Inr x \<Rightarrow> f x)"

text \<open>\<^verbatim>\<open>"transparency" in im.info\<close>\<close>

definition has_transparency_info :: "image \<Rightarrow> bool" where
  "has_transparency_info im = (map_of (info im) ''transparency'' \<noteq> None)"

text \<open>
  \<^verbatim>\<open>im.convert(mode)\<close> without a palette argument.  The result has the requested mode and the
  size of \<open>im\<close>.  A conversion to the image's own mode is a copy, and \<open>RGBA\<close> to \<open>RGB\<close> drops
  the alpha band.
\<close>

definition convert :: "pil \<Rightarrow> string \<Rightarrow> image \<Rightarrow> image" where
  "convert lib target im =
     (if mode im = target then im
      else if mode im = ''RGBA'' \<and> target = ''RGB''
        then im\<lparr>mode := ''RGB'', pixels := map butlast (pixels im)\<rparr>
      else let (px, inf) = convert_other lib target im
           in im\<lparr>mode := target, pixels := px, palette := [], info := inf\<rparr>)"

text \<open>\<^verbatim>\<open>im.convert("P", palette=Image.ADAPTIVE, colors=n, dither=d)\<close>\<close>

definition convert_P_adaptive :: "pil \<Rightarrow> nat \<Rightarrow> bool \<Rightarrow> image \<Rightarrow> image" where
  "convert_P_adaptive lib colors dither im =
     (let (idx, pal, inf) = quantize lib colors dither im
      in im\<lparr>mode := ''P'', pixels := idx, palette := pal, info := inf\<rparr>)"

text \<open>\<^verbatim>\<open>Image.new(mode, size, color)\<close>: every pixel has the given colour.\<close>

definition new_image :: "string \<Rightarrow> nat \<times> nat \<Rightarrow> pixel \<Rightarrow> image" where
  "new_image m sz color =
     \<lparr>mode = m, size_wh = sz, pixels = replicate (fst sz * snd sz) color,
      palette = [], info = []\<rparr>"

text \<open>
  \<^verbatim>\<open>im.resize(size, method)\<close>: Pillow raises \<^verbatim>\<open>ValueError\<close> ("height and width must be > 0") for
  a size below 1; otherwise the result has the requested size and the mode of \<open>im\<close>.
\<close>

definition resize :: "pil \<Rightarrow> string \<Rightarrow> int \<times> int \<Rightarrow> image \<Rightarrow> py_error + image" where
  "resize lib method sz im =
     (if fst sz < 1 \<or> snd sz < 1 then Inl ValueError
      else Inr (im\<lparr>size_wh := (nat (fst sz), nat (snd sz)),
                   pixels := resample lib method (nat (fst sz), nat (snd sz)) im\<rparr>))"

text \<open>\<^verbatim>\<open>ImageOps.contain(im, box)\<close>: the image resized (bicubic by default) to the computed size.\<close>

definition contain :: "pil \<Rightarrow> image \<Rightarrow> int \<times> int \<Rightarrow> py_error + image" where
  "contain lib im box =
     and_then (contain_size lib (size_wh im) box) (\<lambda>sz. resize lib ''BICUBIC'' sz im)"

text \<open>
  \<^verbatim>\<open>Image.alpha_composite(bg, im)\<close>: a new \<open>RGBA\<close> image made of \<open>bg\<close> with \<open>im\<close> laid over it,
  pixel by pixel.
\<close>

definition alpha_composite :: "pil \<Rightarrow> image \<Rightarrow> image \<Rightarrow> image" where
  "alpha_composite lib bg im = bg\<lparr>pixels := map2 (alpha_over lib) (pixels bg) (pixels im)\<rparr>"

text \<open>
  \<^verbatim>\<open>Image.composite(image1, image2, mask)\<close> is a copy of \<open>image2\<close> with \<open>image1\<close> pasted through
  the mask.  Pillow blends each band as \<open>(dst * (255 - m) + src * m) / 255\<close>, the division
  rounded by its \<open>DIV255\<close> shift sequence; \<open>m = 255\<close> gives the band of \<open>image1\<close> and \<open>m = 0\<close>
  leaves the band of \<open>image2\<close>.
\<close>

definition div255 :: "nat \<Rightarrow> nat" where
  "div255 a = (let t = a + 128 in (t div 256 + t) div 256)"

definition blend8 :: "nat \<Rightarrow> nat \<Rightarrow> nat \<Rightarrow> nat" where
  "blend8 m dst src = div255 (dst * (255 - m) + src * m)"

definition composite :: "image \<Rightarrow> image \<Rightarrow> nat list \<Rightarrow> image" where
  "composite image1 image2 alpha_mask =
     image2\<lparr>pixels :=
       map (\<lambda>(m, src, dst). map2 (blend8 m) dst src)
         (zip alpha_mask (zip (pixels image1) (pixels image2)))\<rparr>"

text \<open>\<^verbatim>\<open>im.split()[-1]\<close>: the last band of every pixel.\<close>

definition last_band :: "image \<Rightarrow> nat list" where
  "last_band im = map last (pixels im)"

section \<open>Frame loader\<close>

text \<open>
  The height \<^verbatim>\<open>max(1, round(h * (target_width / w)))\<close> of the stretch mode.
\<close>

definition stretch_height :: "int \<Rightarrow> nat \<Rightarrow> nat \<Rightarrow> py_error + int" where
  "stretch_height target_width w h =
     and_then (py_truediv target_width (int w))
       (\<lambda>ratio. Inr (max 1 (py_round (py_mul_int_float (int h) ratio))))"

text \<open>The \<open>Convert\<close> step of \<^verbatim>\<open>load_and_prepare_image\<close>.\<close>

definition convert_step :: "pil \<Rightarrow> (nat \<times> nat \<times> nat) option \<Rightarrow> image \<Rightarrow> image" where
  "convert_step lib background im =
     (if mode im = ''RGBA'' \<or> mode im = ''LA'' \<or> (mode im = ''P'' \<and> has_transparency_info im)
      then (case background of
              None \<Rightarrow> convert lib ''RGBA'' im
            | Some (r, g, b) \<Rightarrow>
                (let bg = new_image ''RGBA'' (size_wh im) [r, g, b, 255]
                 in convert lib ''RGB'' (alpha_composite lib bg (convert lib ''RGBA'' im))))
      else convert lib ''RGB'' im)"

text \<open>
  The \<open>Resize\<close> step.  \<^verbatim>\<open>if target_width and target_width > 0\<close> is false for \<open>None\<close> and for 0.
\<close>

definition resize_step :: "pil \<Rightarrow> int option \<Rightarrow> string \<Rightarrow> image \<Rightarrow> py_error + image" where
  "resize_step lib target_width fit_mode im =
     (case target_width of
        None \<Rightarrow> Inr im
      | Some tw \<Rightarrow>
          if tw \<noteq> 0 \<and> tw > 0 then
            (if fit_mode = ''fit'' then contain lib im (tw, 10 ^ 9)
             else if fit_mode = ''stretch'' then
               (let (w, h) = size_wh im
                in if int w \<noteq> tw
                   then and_then (stretch_height tw w h)
                          (\<lambda>new_h. resize lib ''LANCZOS'' (tw, new_h) im)
                   else Inr im)
             else Inr im)
          else Inr im)"

text \<open>The palette step.\<close>

definition palette_step :: "pil \<Rightarrow> bool \<Rightarrow> bool \<Rightarrow> image \<Rightarrow> image" where
  "palette_step lib to_palette dither im =
     (if to_palette then convert_P_adaptive lib 256 dither im else im)"

definition load_and_prepare_image ::
  "pil \<Rightarrow> string \<Rightarrow> int option \<Rightarrow> string \<Rightarrow> (nat \<times> nat \<times> nat) option \<Rightarrow> bool \<Rightarrow> bool
     \<Rightarrow> py_error + image" where
  "load_and_prepare_image lib name target_width fit_mode background to_palette dither =
     and_then (open_image lib name) (\<lambda>im.
     and_then (resize_step lib target_width fit_mode (convert_step lib background im)) (\<lambda>im.
     Inr (palette_step lib to_palette dither im)))"

section \<open>Animation encoder\<close>

text \<open>The size normalisation of one frame against the size of the first.\<close>

definition normalize_size :: "pil \<Rightarrow> nat \<times> nat \<Rightarrow> image \<Rightarrow> py_error + image" where
  "normalize_size lib sz0 im =
     (if size_wh im \<noteq> sz0 then resize lib ''LANCZOS'' (int (fst sz0), int (snd sz0)) im
      else Inr im)"

text \<open>
  The branch for an \<open>RGBA\<close> frame when transparency is to be preserved.  (\<^verbatim>\<open>convert\<close> dithers
  by default.)
\<close>

definition matte_quantize :: "pil \<Rightarrow> image \<Rightarrow> image" where
  "matte_quantize lib im =
     (let alpha = last_band im;
          matte = new_image ''RGB'' (size_wh im) [255, 0, 255];
          rgb = composite (convert lib ''RGB'' im) matte alpha;
          p = convert_P_adaptive lib 255 True rgb
      in p\<lparr>info := (''transparency'', IntV 255)
                      # filter (\<lambda>kv. fst kv \<noteq> ''transparency'') (info p)\<rparr>)"

definition process_frame :: "pil \<Rightarrow> bool \<Rightarrow> image \<Rightarrow> image" where
  "process_frame lib save_transparency im =
     (if save_transparency \<and> mode im = ''RGBA'' then matte_quantize lib im else im)"

text \<open>The list \<open>processed\<close> that \<^verbatim>\<open>build_gif\<close> hands to \<^verbatim>\<open>save\<close>.\<close>

definition gif_frames :: "pil \<Rightarrow> image list \<Rightarrow> bool \<Rightarrow> py_error + image list" where
  "gif_frames lib frames save_transparency =
     (if frames = [] then Inl ValueError
      else and_then (comprehension (normalize_size lib (size_wh (hd frames))) frames)
             (\<lambda>normalized. Inr (map (process_frame lib save_transparency) normalized)))"

definition build_gif ::
  "pil \<Rightarrow> image list \<Rightarrow> int \<Rightarrow> int \<Rightarrow> int \<Rightarrow> bool \<Rightarrow> bool \<Rightarrow> py_error + nat list" where
  "build_gif lib frames duration_ms loop disposal optimize save_transparency =
     and_then (gif_frames lib frames save_transparency)
       (\<lambda>processed. Inr (save_gif lib processed duration_ms loop disposal optimize))"

section \<open>The build\<close>

text \<open>
  The loop that loads the frames: an entry whose loading raises goes to \<open>skipped\<close>, the others
  to \<open>frames\<close>, both in the order of \<open>names\<close>.
\<close>

fun load_frames ::
  "(string \<Rightarrow> py_error + image) \<Rightarrow> string list \<Rightarrow> image list \<times> string list
     \<Rightarrow> image list \<times> string list" where
  "load_frames load [] (frames, skipped) = (frames, skipped)"
| "load_frames load (n # ns) (frames, skipped) =
     (case load n of
        Inr im \<Rightarrow> load_frames load ns (frames @ [im], skipped)
      | Inl e \<Rightarrow> load_frames load ns (frames, skipped @ [n]))"

text \<open>The options read from the page.\<close>

record options =
  descending :: bool
  reverse_frames :: bool
  target_width :: int
  fit_mode :: string
  palette_opt :: bool
  dither_opt :: bool
  bg_transparent :: bool
  bg_color :: "nat \<times> nat \<times> nat"
  fps :: int
  loop_count :: int
  disposal_opt :: int

text \<open>What the page shows in the end.\<close>

datatype outcome =
    NoImages
  | Raised py_error "string list"
  | Built "nat list" nat "string list" bool

text \<open>\<^verbatim>\<open>max(1, round(1000 / fps))\<close>\<close>

definition duration_of :: "int \<Rightarrow> py_error + int" where
  "duration_of f = and_then (py_truediv 1000 f) (\<lambda>q. Inr (max 1 (py_round q)))"

definition frame_loader :: "pil \<Rightarrow> options \<Rightarrow> string \<Rightarrow> py_error + image" where
  "frame_loader lib opts n =
     load_and_prepare_image lib n
       (if target_width opts = 0 then None else Some (target_width opts))
       (fit_mode opts)
       (if bg_transparent opts then None else Some (bg_color opts))
       (palette_opt opts) (dither_opt opts)"

text \<open>
  The handler of the build button, from the name list of the opened archive on.  The third
  component of \<open>Built\<close> is the list of skipped names, the last one tells whether the size
  warning was shown.
\<close>

definition make_gif :: "pil \<Rightarrow> options \<Rightarrow> string list \<Rightarrow> outcome" where
  "make_gif lib opts namelist =
     (let names = list_images_in_zip namelist in
      if names = [] then NoImages
      else case sort_names (descending opts) names of
        Inl e \<Rightarrow> Raised e []
      | Inr sorted_names \<Rightarrow>
          (let (frames0, skipped) = load_frames (frame_loader lib opts) sorted_names ([], []);
               frames = boomerang (reverse_frames opts) frames0
           in case duration_of (fps opts) of
                Inl e \<Rightarrow> Raised e skipped
              | Inr duration_ms \<Rightarrow>
                  (let total_pixels = sum_list (map (\<lambda>f. fst (size_wh f) * snd (size_wh f)) frames)
                   in case build_gif lib frames duration_ms (loop_count opts) (disposal_opt opts)
                             True (bg_transparent opts) of
                        Inl e \<Rightarrow> Raised e skipped
                      | Inr gif_bytes \<Rightarrow>
                          Built gif_bytes (length frames) skipped (200000000 < total_pixels))))"

section \<open>What the properties assume of the imaging library\<close>

text \<open>A decoded image has at least one row and one column.\<close>

definition nonempty_image :: "image \<Rightarrow> bool" where
  "nonempty_image im = (0 < fst (size_wh im) \<and> 0 < snd (size_wh im))"

definition decodes_nonempty :: "pil \<Rightarrow> bool" where
  "decodes_nonempty lib = (\<forall>n im. open_image lib n = Inr im \<longrightarrow> nonempty_image im)"

text \<open>
  Quantizing to at most \<open>n\<close> colours gives one palette index per pixel, each below \<open>n\<close>.
\<close>

definition quantizes_within :: "pil \<Rightarrow> bool" where
  "quantizes_within lib =
     (\<forall>n d im. 0 < n \<longrightarrow>
        length (fst (quantize lib n d im)) = length (pixels im)
        \<and> (\<forall>p\<in>set (fst (quantize lib n d im)). \<exists>i<n. p = [i]))"

text \<open>\<^verbatim>\<open>ImageOps.contain\<close> returns an image that fits into the requested box.\<close>

definition contains_within :: "pil \<Rightarrow> bool" where
  "contains_within lib =
     (\<forall>sz box r. contain_size lib sz box = Inr r \<longrightarrow> fst r \<le> fst box \<and> snd r \<le> snd box)"

section \<open>A small instance of the imaging library\<close>

text \<open>
  The properties below hold for every library.  To run the program on a concrete archive,
  this section gives one simple library: the archive is a list of names with the decoded
  image (or nothing, for bytes that do not decode), conversions copy grey to the three
  colour bands, the quantizer takes the colours in order of first appearance, resizing
  takes the nearest pixel, and \<open>contain\<close> scales into the box, rounding down.
\<close>

definition demo_alpha :: "pixel \<Rightarrow> nat" where
  "demo_alpha p = (if length p = 2 \<or> length p = 4 then last p else 255)"

definition demo_rgb :: "pixel \<Rightarrow> pixel" where
  "demo_rgb p =
     (if length p = 3 \<or> length p = 4 then take 3 p
      else if p = [] then [0, 0, 0] else [hd p, hd p, hd p])"

definition demo_lookup :: "image \<Rightarrow> pixel \<Rightarrow> pixel" where
  "demo_lookup im p =
     (if mode im = ''P'' \<and> p \<noteq> [] \<and> hd p < length (palette im) then palette im ! hd p else p)"

definition demo_convert_other ::
  "string \<Rightarrow> image \<Rightarrow> pixel list \<times> (string \<times> info_value) list" where
  "demo_convert_other target im =
     (let px = map (demo_lookup im) (pixels im)
      in (if target = ''RGBA'' then map (\<lambda>p. demo_rgb p @ [demo_alpha p]) px
          else map demo_rgb px,
          filter (\<lambda>kv. fst kv \<noteq> ''transparency'') (info im)))"

fun index_of :: "'a list \<Rightarrow> 'a \<Rightarrow> nat" where
  "index_of [] x = 0"
| "index_of (y # ys) x = (if x = y then 0 else Suc (index_of ys x))"

definition demo_quantize ::
  "nat \<Rightarrow> bool \<Rightarrow> image \<Rightarrow> pixel list \<times> pixel list \<times> (string \<times> info_value) list" where
  "demo_quantize n d im =
     (let pal = take n (remdups (pixels im))
      in (map (\<lambda>p. [min (index_of pal p) (n - 1)]) (pixels im), pal, info im))"

definition demo_resample :: "string \<Rightarrow> nat \<times> nat \<Rightarrow> image \<Rightarrow> pixel list" where
  "demo_resample method sz im =
     (let w0 = fst (size_wh im); h0 = snd (size_wh im); w = fst sz; h = snd sz
      in concat (map (\<lambda>y. map (\<lambda>x.
           (let i = (y * h0 div h) * w0 + x * w0 div w
            in if i < length (pixels im) then pixels im ! i else [])) [0..<w]) [0..<h]))"

definition demo_over :: "pixel \<Rightarrow> pixel \<Rightarrow> pixel" where
  "demo_over dst src = map2 (blend8 (demo_alpha src)) (take 3 dst) (take 3 src) @ [255]"

definition demo_contain_size :: "nat \<times> nat \<Rightarrow> int \<times> int \<Rightarrow> py_error + int \<times> int" where
  "demo_contain_size sz box =
     (let w = int (fst sz); h = int (snd sz); bw = fst box; bh = snd box
      in if w = 0 \<or> h = 0 then Inl ZeroDivisionError
         else if bw * h < w * bh then Inr (bw, (h * bw) div w)
         else if w * bh < bw * h then Inr ((w * bh) div h, bh)
         else Inr (bw, bh))"

definition demo_save :: "image list \<Rightarrow> int \<Rightarrow> int \<Rightarrow> int \<Rightarrow> bool \<Rightarrow> nat list" where
  "demo_save frames duration loop disposal optimize =
     concat (map (\<lambda>f. concat (pixels f)) frames)"

definition demo_open :: "(string \<times> image option) list \<Rightarrow> string \<Rightarrow> py_error + image" where
  "demo_open archive n =
     (case map_of archive n of Some (Some im) \<Rightarrow> Inr im | Some None \<Rightarrow> Inl OSError
      | None \<Rightarrow> Inl OSError)"

definition demo_pil :: "(string \<times> image option) list \<Rightarrow> pil" where
  "demo_pil archive =
     \<lparr>open_image = demo_open archive, convert_other = demo_convert_other,
      quantize = demo_quantize, resample = demo_resample, alpha_over = demo_over,
      contain_size = demo_contain_size, save_gif = demo_save\<rparr>"

text \<open>
  An archive for this library: a 2 by 1 \<open>RGBA\<close> image whose second pixel is fully transparent,
  an entry that does not decode, a 1 by 1 \<open>RGB\<close> image, and a 1 by 1 \<open>RGB\<close> image that carries a
  transparency marker, as a truecolour PNG with a \<open>tRNS\<close> chunk does.
\<close>

definition demo_rgba_image :: image where
  "demo_rgba_image =
     \<lparr>mode = ''RGBA'', size_wh = (2, 1), pixels = [[10, 20, 30, 255], [1, 2, 3, 0]],
      palette = [], info = []\<rparr>"

definition demo_rgb_image :: image where
  "demo_rgb_image =
     \<lparr>mode = ''RGB'', size_wh = (1, 1), pixels = [[9, 9, 9]], palette = [], info = []\<rparr>"

definition demo_marked_image :: image where
  "demo_marked_image =
     \<lparr>mode = ''RGB'', size_wh = (1, 1), pixels = [[0, 0, 0]], palette = [],
      info = [(''transparency'', TupleV [0, 0, 0])]\<rparr>"

definition demo_archive :: "(string \<times> image option) list" where
  "demo_archive =
     [(''f1.png'', Some demo_rgba_image), (''f2.png'', None), (''f10.png'', Some demo_rgb_image),
      (''m.png'', Some demo_marked_image)]"

definition demo_options :: options where
  "demo_options =
     \<lparr>descending = False, reverse_frames = False, target_width = 0, fit_mode = ''fit'',
      palette_opt = False, dither_opt = True, bg_transparent = False,
      bg_color = (255, 255, 255), fps = 10, loop_count = 0, disposal_opt = 2\<rparr>"

section \<open>The archive filter in the specification's words\<close>

text \<open>
  The specification describes the filter by what an entry is, not by string tests: an entry
  under the \<open>__MACOSX\<close> directory has a path component \<open>__MACOSX\<close> followed by a slash; the
  base name is what follows the last slash; a directory entry ends with a slash; the extension
  is what follows the last dot of the base name.
\<close>

definition spec_under_macosx :: "string \<Rightarrow> bool" where
  "spec_under_macosx name =
     (\<exists>pre post. name = pre @ ''__MACOSX/'' @ post \<and> (pre = [] \<or> last pre = CHR ''/''))"

definition spec_base_name :: "string \<Rightarrow> string \<Rightarrow> bool" where
  "spec_base_name name b =
     (CHR ''/'' \<notin> set b \<and> (\<exists>dir. name = dir @ b \<and> (dir = [] \<or> last dir = CHR ''/'')))"

definition spec_dot_file :: "string \<Rightarrow> bool" where
  "spec_dot_file name = (\<exists>b. spec_base_name name (CHR ''.'' # b))"

definition spec_directory :: "string \<Rightarrow> bool" where
  "spec_directory name = (name \<noteq> [] \<and> last name = CHR ''/'')"

definition spec_extension :: "string \<Rightarrow> string \<Rightarrow> bool" where
  "spec_extension name e =
     (CHR ''.'' \<notin> set e \<and> (\<exists>stem. spec_base_name name (stem @ ''.'' @ e)))"

definition spec_supported :: "string set" where
  "spec_supported = {''png'', ''jpg'', ''jpeg'', ''bmp'', ''gif'', ''tif'', ''tiff'', ''webp''}"

text \<open>
  Two names are in ascending order when both have a key and the key of the second is not
  smaller than the key of the first.
\<close>

definition in_order :: "string \<Rightarrow> string \<Rightarrow> bool" where
  "in_order a b =
     (\<exists>ka kb. natural_key a = Inr ka \<and> natural_key b = Inr kb \<and> key_lt kb ka = Inr False)"

text \<open>
  A list of flags alternates when no two neighbours are equal.
\<close>

fun alternating :: "bool list \<Rightarrow> bool" where
  "alternating [] = True"
| "alternating [x] = True"
| "alternating (x # y # zs) = (x \<noteq> y \<and> alternating (y # zs))"

text \<open>
  Two keys are mixed when at some position that both have, one holds an \<open>int\<close> and the other
  a \<open>str\<close>.
\<close>

definition mixed :: "token list \<Rightarrow> token list \<Rightarrow> bool" where
  "mixed ka kb = list_ex (\<lambda>(x, y). is_int x \<noteq> is_int y) (zip ka kb)"

text \<open>
  A maximal run of digits, or of non-digits, inside a name \<open>p @ run @ r\<close>: the run is not
  empty, holds one kind of character only, and its neighbours are of the other kind.
\<close>

definition digit_run :: "string \<Rightarrow> string \<Rightarrow> string \<Rightarrow> bool" where
  "digit_run p d r =
     (d \<noteq> [] \<and> list_all is_decimal d
      \<and> (p = [] \<or> \<not> is_decimal (last p)) \<and> (r = [] \<or> \<not> is_decimal (hd r)))"

definition text_run :: "string \<Rightarrow> string \<Rightarrow> string \<Rightarrow> bool" where
  "text_run p t r =
     (t \<noteq> [] \<and> list_all (\<lambda>c. \<not> is_decimal c) t
      \<and> (p = [] \<or> is_decimal (last p)) \<and> (r = [] \<or> is_decimal (hd r)))"

section \<open>Properties: strings\<close>

lemma startswith_iff: "startswith s p \<longleftrightarrow> (\<exists>t. s = p @ t)"
proof
  assume "startswith s p"
  then have "s = p @ drop (length p) s"
    by (metis append_take_drop_id startswith_def)
  then show "\<exists>t. s = p @ t" ..
next
  assume "\<exists>t. s = p @ t"
  then show "startswith s p" by (auto simp: startswith_def)
qed

lemma endswith_iff: "endswith s p \<longleftrightarrow> (\<exists>t. s = t @ p)"
proof
  assume "endswith s p"
  then have "s = take (length s - length p) s @ p"
    by (metis append_take_drop_id endswith_def)
  then show "\<exists>t. s = t @ p" ..
next
  assume "\<exists>t. s = t @ p"
  then show "endswith s p" by (auto simp: endswith_def)
qed

lemma contains_iff: "contains sub s \<longleftrightarrow> (\<exists>pre post. s = pre @ sub @ post)"
proof (induction s)
  case Nil
  then show ?case by auto
next
  case (Cons c cs)
  show ?case
  proof
    assume "contains sub (c # cs)"
    then consider "startswith (c # cs) sub" | "contains sub cs" by auto
    then show "\<exists>pre post. c # cs = pre @ sub @ post"
    proof cases
      case 1
      then obtain t where "c # cs = sub @ t" by (auto simp: startswith_iff)
      then have "c # cs = [] @ sub @ t" by simp
      then show ?thesis by blast
    next
      case 2
      then obtain pre post where "cs = pre @ sub @ post" using Cons.IH by auto
      then have "c # cs = (c # pre) @ sub @ post" by simp
      then show ?thesis by blast
    qed
  next
    assume "\<exists>pre post. c # cs = pre @ sub @ post"
    then obtain pre post where eq: "c # cs = pre @ sub @ post" by auto
    show "contains sub (c # cs)"
    proof (cases pre)
      case Nil
      with eq have "startswith (c # cs) sub" by (auto simp: startswith_iff)
      then show ?thesis by simp
    next
      case (Cons p ps)
      with eq have "cs = ps @ sub @ post" by simp
      then have "contains sub cs" using Cons.IH by blast
      then show ?thesis by simp
    qed
  qed
qed

lemma after_last_unique:
  assumes "c \<notin> set b" and "d = [] \<or> last d = c"
  shows "rev (takeWhile (\<lambda>x. x \<noteq> c) (rev (d @ b))) = b"
proof (cases d rule: rev_cases)
  case Nil
  have "\<forall>x\<in>set (rev b). x \<noteq> c" using assms(1) by auto
  then have "takeWhile (\<lambda>x. x \<noteq> c) (rev b) = rev b"
    by (simp only: takeWhile_eq_all_conv)
  then have "rev (takeWhile (\<lambda>x. x \<noteq> c) (rev b)) = b"
    by (simp only: rev_rev_ident)
  with Nil show ?thesis by (simp only: append_Nil)
next
  case (snoc ys y)
  with assms(2) have y: "y = c" by simp
  have "takeWhile (\<lambda>x. x \<noteq> c) (rev b @ c # rev ys) = rev b @ takeWhile (\<lambda>x. x \<noteq> c) (c # rev ys)"
    using assms(1) by (intro takeWhile_append2) auto
  then have "takeWhile (\<lambda>x. x \<noteq> c) (rev b @ c # rev ys) = rev b" by simp
  then have "rev (takeWhile (\<lambda>x. x \<noteq> c) (rev b @ c # rev ys)) = b"
    by (simp only: rev_rev_ident)
  moreover have "rev (d @ b) = rev b @ c # rev ys" using snoc y by simp
  ultimately show ?thesis by (simp only:)
qed

lemma after_last_split:
  "\<exists>d. p = d @ rev (takeWhile (\<lambda>x. x \<noteq> c) (rev p)) \<and> (d = [] \<or> last d = c)"
proof -
  let ?P = "\<lambda>x. x \<noteq> c"
  let ?d = "rev (dropWhile ?P (rev p))"
  have "rev p = takeWhile ?P (rev p) @ dropWhile ?P (rev p)" by simp
  then have "rev (rev p) = rev (takeWhile ?P (rev p) @ dropWhile ?P (rev p))" by simp
  then have eq: "p = ?d @ rev (takeWhile ?P (rev p))" by (simp only: rev_append rev_rev_ident)
  have "?d = [] \<or> last ?d = c"
  proof (cases "dropWhile ?P (rev p)")
    case Nil
    then show ?thesis by simp
  next
    case (Cons y ys)
    then have "\<not> ?P y" using hd_dropWhile [of ?P "rev p"] by auto
    with Cons show ?thesis by simp
  qed
  with eq show ?thesis by blast
qed

lemma after_last_free: "c \<notin> set (rev (takeWhile (\<lambda>x. x \<noteq> c) (rev p)))"
  by (auto dest: set_takeWhileD)

section \<open>Properties: archive filter\<close>

lemma spec_base_name_iff: "spec_base_name name b \<longleftrightarrow> basename name = b"
proof
  assume "spec_base_name name b"
  then obtain dir where "CHR ''/'' \<notin> set b" "name = dir @ b" "dir = [] \<or> last dir = CHR ''/''"
    by (auto simp: spec_base_name_def)
  then show "basename name = b"
    using after_last_unique [of "CHR ''/''" b dir] by (simp add: basename_def)
next
  assume "basename name = b"
  then show "spec_base_name name b"
    unfolding spec_base_name_def
    using after_last_split [of name "CHR ''/''"] after_last_free [of "CHR ''/''" name]
    by (auto simp: basename_def)
qed

lemma under_macosx_iff:
  "startswith name ''__MACOSX/'' \<or> contains ''/__MACOSX/'' name \<longleftrightarrow> spec_under_macosx name"
proof
  assume "startswith name ''__MACOSX/'' \<or> contains ''/__MACOSX/'' name"
  then show "spec_under_macosx name"
  proof
    assume "startswith name ''__MACOSX/''"
    then obtain t where "name = [] @ ''__MACOSX/'' @ t" by (auto simp: startswith_iff)
    then show ?thesis unfolding spec_under_macosx_def by blast
  next
    assume "contains ''/__MACOSX/'' name"
    then obtain pre post where "name = pre @ ''/__MACOSX/'' @ post"
      by (auto simp: contains_iff)
    then have "name = (pre @ ''/'') @ ''__MACOSX/'' @ post \<and> last (pre @ ''/'') = CHR ''/''"
      by simp
    then show ?thesis unfolding spec_under_macosx_def by blast
  qed
next
  assume "spec_under_macosx name"
  then obtain pre post where eq: "name = pre @ ''__MACOSX/'' @ post"
    and pre: "pre = [] \<or> last pre = CHR ''/''"
    by (auto simp: spec_under_macosx_def)
  show "startswith name ''__MACOSX/'' \<or> contains ''/__MACOSX/'' name"
  proof (cases pre rule: rev_cases)
    case Nil
    with eq have "startswith name ''__MACOSX/''" by (simp add: startswith_iff)
    then show ?thesis ..
  next
    case (snoc ys y)
    with pre eq have "name = ys @ ''/__MACOSX/'' @ post" by simp
    then have "contains ''/__MACOSX/'' name" unfolding contains_iff by blast
    then show ?thesis ..
  qed
qed

lemma dot_file_iff:
  "startswith (basename name) ''._'' \<or> startswith (basename name) ''.'' \<longleftrightarrow> spec_dot_file name"
proof -
  have "startswith (basename name) ''._'' \<Longrightarrow> startswith (basename name) ''.''"
    by (auto simp: startswith_iff)
  moreover have "startswith (basename name) ''.'' \<longleftrightarrow> spec_dot_file name"
    by (auto simp: startswith_iff spec_dot_file_def spec_base_name_iff)
  ultimately show ?thesis by blast
qed

lemma directory_iff: "endswith name ''/'' \<longleftrightarrow> spec_directory name"
proof
  assume "endswith name ''/''"
  then show "spec_directory name" by (auto simp: endswith_iff spec_directory_def)
next
  assume "spec_directory name"
  then have "name = butlast name @ ''/''"
    unfolding spec_directory_def by (metis append_butlast_last_id)
  then show "endswith name ''/''" unfolding endswith_iff by blast
qed

lemma extension_iff:
  "spec_extension name e \<longleftrightarrow> CHR ''.'' \<in> set (basename name) \<and> e = rsplit_last (basename name)"
proof
  assume "spec_extension name e"
  then obtain stem where e: "CHR ''.'' \<notin> set e" and b: "basename name = (stem @ ''.'') @ e"
    by (auto simp: spec_extension_def spec_base_name_iff)
  have "rsplit_last ((stem @ ''.'') @ e) = e"
    unfolding rsplit_last_def by (rule after_last_unique [OF e]) simp
  with b show "CHR ''.'' \<in> set (basename name) \<and> e = rsplit_last (basename name)"
    by simp
next
  assume a: "CHR ''.'' \<in> set (basename name) \<and> e = rsplit_last (basename name)"
  obtain d where d: "basename name = d @ e" "d = [] \<or> last d = CHR ''.''"
    using after_last_split [of "basename name" "CHR ''.''"] a by (auto simp: rsplit_last_def)
  have e: "CHR ''.'' \<notin> set e"
    using a after_last_free [of "CHR ''.''" "basename name"] by (simp add: rsplit_last_def)
  with a d have "d \<noteq> []" by auto
  with d have "d = butlast d @ ''.''" by (metis append_butlast_last_id)
  with d have "basename name = butlast d @ ''.'' @ e" by (metis append_assoc)
  with e show "spec_extension name e"
    unfolding spec_extension_def spec_base_name_iff by blast
qed

lemma supported_ext_iff: "''.'' @ e \<in> SUPPORTED_EXTS \<longleftrightarrow> e \<in> spec_supported"
  by (auto simp: SUPPORTED_EXTS_def spec_supported_def)

lemma is_valid_zip_image_iff:
  "is_valid_zip_image name \<longleftrightarrow>
     \<not> spec_under_macosx name \<and> \<not> spec_dot_file name \<and> \<not> spec_directory name
     \<and> (\<exists>e. spec_extension name e \<and> lower e \<in> spec_supported)"
proof -
  have ext: "(\<exists>e. spec_extension name e \<and> lower e \<in> spec_supported) \<longleftrightarrow>
      (if CHR ''.'' \<in> set (basename name) then ''.'' @ lower (rsplit_last (basename name)) else [])
        \<in> SUPPORTED_EXTS"
    by (simp add: extension_iff supported_ext_iff del: append.simps) (simp add: SUPPORTED_EXTS_def)
  show ?thesis
    unfolding is_valid_zip_image_def Let_def ext
    using under_macosx_iff [of name] dot_file_iff [of name] directory_iff [of name]
    by (simp only: if_False if_True split: if_splits) blast
qed

section \<open>Properties: comparing keys\<close>

lemma str_lt_iff_less: "str_lt a b \<longleftrightarrow> a < b"
  by (induction a b rule: str_lt.induct) (auto simp: less_char_def)

lemma token_lt_TypeError: "token_lt x y = Inl e \<longleftrightarrow> e = TypeError \<and> is_int x \<noteq> is_int y"
  by (cases x; cases y) auto

lemma token_lt_asym: "token_lt x y = Inr True \<Longrightarrow> token_lt y x = Inr False"
  by (cases x; cases y) (auto simp: str_lt_iff_less)

lemma token_lt_irrefl: "token_lt x x = Inr False"
  by (cases x) (auto simp: str_lt_iff_less)

lemma token_lt_total: "token_lt x y = Inr False \<Longrightarrow> x \<noteq> y \<Longrightarrow> token_lt y x = Inr True"
  by (cases x; cases y) (auto simp: str_lt_iff_less)

lemma token_lt_trans:
  "token_lt x y = Inr True \<Longrightarrow> token_lt y z = Inr True \<Longrightarrow> token_lt x z = Inr True"
  by (cases x; cases y; cases z) (auto simp: str_lt_iff_less)

lemma key_lt_irrefl: "key_lt k k = Inr False"
  by (induction k) auto

lemma key_lt_Nil_right: "key_lt k [] = Inr False"
  by (cases k) auto

lemma key_lt_sandwich:
  "key_lt x y = Inr True \<Longrightarrow> key_lt z y = Inr False \<Longrightarrow> key_lt z x = Inr False"
proof (induction x y arbitrary: z rule: key_lt.induct)
  case 1
  then show ?case by simp
next
  case (2 y ys)
  then show ?case by (simp add: key_lt_Nil_right)
next
  case (3 x xs)
  then show ?case by simp
next
  case (4 x xs y ys)
  show ?case
  proof (cases z)
    case Nil
    with 4 show ?thesis by simp
  next
    case (Cons c cs)
    show ?thesis
    proof (cases "x = y")
      case True
      with 4 Cons show ?thesis by (auto split: if_splits)
    next
      case xy: False
      with 4 have lt: "token_lt x y = Inr True" by simp
      show ?thesis
      proof (cases "c = y")
        case True
        with xy lt Cons show ?thesis by (auto dest: token_lt_asym)
      next
        case cy: False
        with 4 Cons have "token_lt c y = Inr False" by simp
        with cy have "token_lt y c = Inr True" by (simp add: token_lt_total)
        with lt have xc: "token_lt x c = Inr True" by (rule token_lt_trans)
        then have "token_lt c x = Inr False" by (rule token_lt_asym)
        moreover have "c \<noteq> x" using xc token_lt_irrefl [of x] by auto
        ultimately show ?thesis using Cons by simp
      qed
    qed
  qed
qed

section \<open>Properties: the sort\<close>

lemma insort_key_set: "insort_key x ys = Inr zs \<Longrightarrow> mset zs = add_mset x (mset ys)"
  by (induction ys arbitrary: zs) (auto split: sum.splits bool.splits if_splits)

lemma insort_key_sorted:
  "insort_key x ys = Inr zs \<Longrightarrow> key_sorted ys \<Longrightarrow> key_sorted zs"
proof (induction ys arbitrary: zs)
  case Nil
  then show ?case by (auto simp: key_sorted_def)
next
  case (Cons y ys)
  show ?case
  proof (cases "key_lt (fst x) (fst y)")
    case (Inl e)
    with Cons.prems show ?thesis by simp
  next
    case (Inr b)
    show ?thesis
    proof (cases b)
      case True
      with Inr Cons.prems have zs: "zs = x # y # ys" by simp
      have "key_lt (fst z) (fst x) = Inr False" if "z \<in> set (y # ys)" for z
      proof -
        have "key_lt (fst z) (fst y) = Inr False"
          using that Cons.prems(2) by (auto simp: key_sorted_def key_lt_irrefl)
        with Inr True show ?thesis by (auto intro: key_lt_sandwich)
      qed
      with zs Cons.prems(2) show ?thesis by (auto simp: key_sorted_def)
    next
      case False
      with Inr Cons.prems obtain ws where ws: "insort_key x ys = Inr ws" "zs = y # ws"
        by (auto split: sum.splits)
      have "key_sorted ys" using Cons.prems(2) by (simp add: key_sorted_def)
      with ws have s: "key_sorted ws" using Cons.IH by blast
      have "set ws = insert x (set ys)"
        using insort_key_set [OF ws(1)] by (metis set_mset_add_mset_insert set_mset_mset)
      with s ws Inr False Cons.prems(2) show ?thesis by (auto simp: key_sorted_def)
    qed
  qed
qed

lemma insort_key_stable:
  "insort_key x ys = Inr zs \<Longrightarrow> key_sorted ys \<Longrightarrow>
   filter (\<lambda>p. fst p = k) zs = filter (\<lambda>p. fst p = k) ys @ filter (\<lambda>p. fst p = k) [x]"
proof (induction ys arbitrary: zs)
  case Nil
  then show ?case by auto
next
  case (Cons y ys)
  show ?case
  proof (cases "key_lt (fst x) (fst y)")
    case (Inl e)
    with Cons.prems show ?thesis by simp
  next
    case (Inr b)
    show ?thesis
    proof (cases b)
      case True
      with Inr Cons.prems have zs: "zs = x # y # ys" by simp
      have ne: "fst z \<noteq> fst x" if "z \<in> set (y # ys)" for z
      proof
        assume eq: "fst z = fst x"
        have "key_lt (fst z) (fst y) = Inr False"
          using that Cons.prems(2) by (auto simp: key_sorted_def key_lt_irrefl)
        with eq Inr True show False by simp
      qed
      show ?thesis
      proof (cases "fst x = k")
        case k: True
        then have "filter (\<lambda>p. fst p = k) (y # ys) = []"
          using ne by (auto simp: filter_empty_conv)
        with zs k show ?thesis by simp
      next
        case False
        with zs show ?thesis by simp
      qed
    next
      case False
      with Inr Cons.prems obtain ws where ws: "insort_key x ys = Inr ws" "zs = y # ws"
        by (auto split: sum.splits)
      have "key_sorted ys" using Cons.prems(2) by (simp add: key_sorted_def)
      with ws show ?thesis using Cons.IH by auto
    qed
  qed
qed

lemma sort_loop_props:
  "sort_loop acc xs = Inr zs \<Longrightarrow> key_sorted acc \<Longrightarrow>
   key_sorted zs \<and> mset zs = mset acc + mset xs
   \<and> filter (\<lambda>p. fst p = k) zs = filter (\<lambda>p. fst p = k) acc @ filter (\<lambda>p. fst p = k) xs"
proof (induction xs arbitrary: acc)
  case Nil
  then show ?case by simp
next
  case (Cons x xs)
  from Cons.prems obtain acc' where a: "insort_key x acc = Inr acc'" "sort_loop acc' xs = Inr zs"
    by (auto split: sum.splits)
  have s: "key_sorted acc'" using a(1) Cons.prems(2) by (rule insort_key_sorted)
  from Cons.IH [OF a(2) s] insort_key_set [OF a(1)] insort_key_stable [OF a(1) Cons.prems(2), of k]
  show ?case by simp
qed

lemma comprehension_all2:
  "comprehension f xs = Inr ys \<Longrightarrow> list_all2 (\<lambda>x y. f x = Inr y) xs ys"
  by (induction xs arbitrary: ys) (auto split: sum.splits)

lemma comprehension_append:
  "comprehension f (xs @ ys) =
     (case comprehension f xs of
        Inl e \<Rightarrow> Inl e
      | Inr a \<Rightarrow> (case comprehension f ys of Inl e \<Rightarrow> Inl e | Inr b \<Rightarrow> Inr (a @ b)))"
  by (induction xs) (auto split: sum.splits)

lemma sort_names_pairs:
  assumes "sort_names r names = Inr ys"
  obtains kvs res where
    "map snd kvs = names" "\<forall>p\<in>set kvs. natural_key (snd p) = Inr (fst p)"
    "sort_loop [] (if r then rev kvs else kvs) = Inr res"
    "ys = map snd (if r then rev res else res)"
proof -
  from assms obtain keys where keys: "comprehension natural_key names = Inr keys"
    by (auto simp: sort_names_def split: sum.splits)
  then have all2: "list_all2 (\<lambda>n k. natural_key n = Inr k) names keys"
    by (rule comprehension_all2)
  let ?kvs = "zip keys names"
  from all2 have len: "length keys = length names" by (simp add: list_all2_lengthD)
  then have m: "map snd ?kvs = names" by simp
  have p: "\<forall>p\<in>set ?kvs. natural_key (snd p) = Inr (fst p)"
    using all2 by (auto simp: list_all2_conv_all_nth set_zip)
  from assms keys obtain res where
    "sort_loop [] (if r then rev ?kvs else ?kvs) = Inr res"
    "ys = map snd (if r then rev res else res)"
    by (auto simp: sort_names_def Let_def split: sum.splits)
  with m p show ?thesis using that by blast
qed

lemma sort_names_props:
  assumes "sort_names r names = Inr ys"
  shows "mset ys = mset names"
    and "filter (\<lambda>n. natural_key n = Inr k) ys = filter (\<lambda>n. natural_key n = Inr k) names"
    and "\<not> r \<Longrightarrow> sorted_wrt in_order ys"
    and "r \<Longrightarrow> sorted_wrt (\<lambda>a b. in_order b a) ys"
proof -
  from assms obtain kvs res where
    names: "map snd kvs = names" and
    keyed: "\<forall>p\<in>set kvs. natural_key (snd p) = Inr (fst p)" and
    loop: "sort_loop [] (if r then rev kvs else kvs) = Inr res" and
    ys: "ys = map snd (if r then rev res else res)"
    by (rule sort_names_pairs)
  have nil: "key_sorted ([] :: (token list \<times> string) list)" by (simp add: key_sorted_def)
  note props = sort_loop_props [OF loop nil]
  have srt: "key_sorted res" using props [of k] by simp
  have ms: "mset res = mset kvs" using props [of k] by (simp split: if_splits)
  then have set_res: "set res = set kvs" by (metis set_mset_mset)
  have flt: "filter (\<lambda>p. fst p = k) (if r then rev res else res) = filter (\<lambda>p. fst p = k) kvs"
    using props [of k] by (auto simp: rev_filter [symmetric] simp del: rev_filter)
  have keyed_res: "\<forall>p\<in>set res. natural_key (snd p) = Inr (fst p)"
    using keyed set_res by simp
  have "mset (map snd res) = mset (map snd kvs)"
    using ms by (metis mset_map)
  then show "mset ys = mset names"
    unfolding ys names [symmetric] by (simp add: rev_map [symmetric] del: rev_map)
  have conv: "filter (\<lambda>n. natural_key n = Inr k) (map snd xs) = map snd (filter (\<lambda>p. fst p = k) xs)"
    if "\<forall>p\<in>set xs. natural_key (snd p) = Inr (fst p)" for xs :: "(token list \<times> string) list"
    using that by (induction xs) auto
  have "filter (\<lambda>n. natural_key n = Inr k) ys = map snd (filter (\<lambda>p. fst p = k) (if r then rev res else res))"
    unfolding ys using keyed_res by (intro conv) auto
  also have "\<dots> = map snd (filter (\<lambda>p. fst p = k) kvs)" by (simp only: flt)
  also have "\<dots> = filter (\<lambda>n. natural_key n = Inr k) names"
    unfolding names [symmetric] using keyed by (rule conv [symmetric])
  finally show "filter (\<lambda>n. natural_key n = Inr k) ys = filter (\<lambda>n. natural_key n = Inr k) names" .
  have ord: "in_order (snd p) (snd q)"
    if "p \<in> set res" "q \<in> set res" "key_lt (fst q) (fst p) = Inr False" for p q
    using that keyed_res unfolding in_order_def by blast
  have asc: "sorted_wrt (\<lambda>p q. in_order (snd p) (snd q)) res"
    using srt unfolding key_sorted_def by (rule sorted_wrt_mono_rel [rotated]) (auto intro: ord)
  show "sorted_wrt in_order ys" if "\<not> r"
    using that asc by (simp add: ys sorted_wrt_map)
  show "sorted_wrt (\<lambda>a b. in_order b a) ys" if r
    using that asc by (simp add: ys sorted_wrt_map sorted_wrt_rev flip: rev_map)
qed

section \<open>Properties: the natural key\<close>

lemma run_all:
  assumes "\<forall>x\<in>set cs. Q x" and "b \<noteq> []" and "\<not> Q (hd b)"
  shows "takeWhile Q (cs @ b) = cs" and "dropWhile Q (cs @ b) = b"
proof -
  obtain y ys where b: "b = y # ys" using assms(2) by (cases b) auto
  with assms(3) have "\<not> Q y" by simp
  with assms(1) b show "takeWhile Q (cs @ b) = cs" and "dropWhile Q (cs @ b) = b"
    by (simp_all add: takeWhile_append2 dropWhile_append2)
qed

lemma run_broken:
  assumes "\<not> (\<forall>x\<in>set cs. Q x)"
  shows "takeWhile Q (cs @ b) = takeWhile Q cs" and "dropWhile Q (cs @ b) = dropWhile Q cs @ b"
    and "dropWhile Q cs \<noteq> []" and "last (dropWhile Q cs) = last (c # cs)"
proof -
  from assms obtain x where x: "x \<in> set cs" "\<not> Q x" by auto
  then show "takeWhile Q (cs @ b) = takeWhile Q cs" by (rule takeWhile_append1)
  from x show "dropWhile Q (cs @ b) = dropWhile Q cs @ b" by (rule dropWhile_append1)
  from x show ne: "dropWhile Q cs \<noteq> []" by (auto simp: dropWhile_eq_Nil_conv)
  have "cs = takeWhile Q cs @ dropWhile Q cs" by simp
  then have "last cs = last (dropWhile Q cs)" using ne by (metis last_appendR)
  moreover have "cs \<noteq> []" using x by auto
  ultimately show "last (dropWhile Q cs) = last (c # cs)" by simp
qed

lemma findall_runs_append:
  "a = [] \<or> b = [] \<or> is_decimal (last a) \<noteq> is_decimal (hd b) \<Longrightarrow>
   findall_runs (a @ b) = findall_runs a @ findall_runs b"
proof (induction a rule: findall_runs.induct)
  case 1
  then show ?case by simp
next
  case (2 c cs)
  show ?case
  proof (cases "b = []")
    case True
    then show ?thesis by simp
  next
    case b: False
    with "2.prems" have brk: "is_decimal (last (c # cs)) \<noteq> is_decimal (hd b)" by simp
    show ?thesis
    proof (cases "is_decimal c")
      case dec: True
      show ?thesis
      proof (cases "\<forall>x\<in>set cs. is_decimal x")
        case True
        then have "is_decimal (last (c # cs))" using dec by (cases cs rule: rev_cases) auto
        with brk have "\<not> is_decimal (hd b)" by simp
        from run_all [OF True b this] True dec show ?thesis
          by (simp add: takeWhile_eq_all_conv [THEN iffD2] dropWhile_eq_Nil_conv [THEN iffD2])
      next
        case False
        note r = run_broken [OF False]
        have "findall_runs (dropWhile is_decimal cs @ b)
            = findall_runs (dropWhile is_decimal cs) @ findall_runs b"
          using "2.IH"(1) [OF dec] r(3,4) brk by simp
        with dec r(1,2) show ?thesis by simp
      qed
    next
      case dec: False
      let ?Q = "\<lambda>x. \<not> is_decimal x"
      show ?thesis
      proof (cases "\<forall>x\<in>set cs. ?Q x")
        case True
        then have "?Q (last (c # cs))" using dec by (cases cs rule: rev_cases) auto
        with brk have "\<not> ?Q (hd b)" by simp
        from run_all [of cs ?Q, OF True b this] True dec show ?thesis
          by (simp add: takeWhile_eq_all_conv [THEN iffD2] dropWhile_eq_Nil_conv [THEN iffD2])
      next
        case False
        note r = run_broken [where Q = ?Q, OF False]
        have "findall_runs (dropWhile ?Q cs @ b)
            = findall_runs (dropWhile ?Q cs) @ findall_runs b"
          using "2.IH"(2) [OF dec] r(3,4) brk by simp
        with dec r(1,2) show ?thesis by simp
      qed
    qed
  qed
qed

lemma findall_runs_digits:
  "d \<noteq> [] \<Longrightarrow> list_all is_decimal d \<Longrightarrow> findall_runs d = [d]"
  by (cases d) (auto simp: list_all_iff takeWhile_eq_all_conv [THEN iffD2] dropWhile_eq_Nil_conv [THEN iffD2])

lemma findall_runs_text:
  "t \<noteq> [] \<Longrightarrow> list_all (\<lambda>x. \<not> is_decimal x) t \<Longrightarrow> findall_runs t = [t]"
  by (cases t) (auto simp: list_all_iff takeWhile_eq_all_conv [THEN iffD2] dropWhile_eq_Nil_conv [THEN iffD2])

lemma natural_token_digits:
  assumes "d \<noteq> []" "list_all is_decimal d"
  shows "natural_token d =
    (if length d \<le> int_max_str_digits then Inr (PyInt (decimal d)) else Inl ValueError)"
proof -
  have "list_all chr_isdigit d"
    using assms(2) by (auto simp: list_all_iff chr_isdigit_def)
  with assms show ?thesis by (simp add: natural_token_def isdigit_def py_int_def)
qed

lemma natural_token_text:
  assumes "t \<noteq> []" "\<not> is_decimal (hd t)"
  shows "natural_token t = (if isdigit t then Inl ValueError else Inr (PyStr (lower t)))"
proof -
  have "\<not> list_all is_decimal t" using assms by (cases t) auto
  then show ?thesis by (simp add: natural_token_def py_int_def)
qed

lemma natural_key_split:
  assumes "a = [] \<or> b = [] \<or> is_decimal (last a) \<noteq> is_decimal (hd b)"
    and "natural_key (a @ b) = Inr k"
  obtains ka kb where "natural_key a = Inr ka" "natural_key b = Inr kb" "k = ka @ kb"
  using assms(2) unfolding natural_key_def findall_runs_append [OF assms(1)] comprehension_append
  by (auto split: sum.splits)

lemma key_lt_common_prefix:
  "x \<noteq> y \<Longrightarrow> key_lt (kp @ x # k1) (kp @ y # k2) = token_lt x y"
  by (induction kp) auto

lemma digit_runs_by_value:
  assumes d1: "d1 \<noteq> []" "list_all is_decimal d1"
    and d2: "d2 \<noteq> []" "list_all is_decimal d2"
    and p: "p = [] \<or> \<not> is_decimal (last p)"
    and r1: "r1 = [] \<or> \<not> is_decimal (hd r1)"
    and r2: "r2 = [] \<or> \<not> is_decimal (hd r2)"
    and k1: "natural_key (p @ d1 @ r1) = Inr k1"
    and k2: "natural_key (p @ d2 @ r2) = Inr k2"
    and ne: "decimal d1 \<noteq> decimal d2"
  shows "key_lt k1 k2 = Inr (decimal d1 < decimal d2)"
proof -
  have run: "\<exists>kr. k = ka @ PyInt (decimal d) # kr"
    if d: "d \<noteq> []" "list_all is_decimal d" and r: "r = [] \<or> \<not> is_decimal (hd r)"
      and k: "natural_key (p @ d @ r) = Inr k" and ka: "natural_key p = Inr ka" for d r k ka
  proof -
    have hd: "is_decimal (hd d)" and lst: "is_decimal (last d)"
      using d by (auto simp: list_all_iff)
    have "p = [] \<or> d @ r = [] \<or> is_decimal (last p) \<noteq> is_decimal (hd (d @ r))"
      using p d hd by auto
    from natural_key_split [OF this k] obtain ka' kb where
      s1: "natural_key p = Inr ka'" "natural_key (d @ r) = Inr kb" "k = ka' @ kb" by blast
    have "d = [] \<or> r = [] \<or> is_decimal (last d) \<noteq> is_decimal (hd r)"
      using r lst by auto
    from natural_key_split [OF this s1(2)] obtain kd kr where
      s2: "natural_key d = Inr kd" "kb = kd @ kr" by blast
    have "natural_key d = (case natural_token d of Inl e \<Rightarrow> Inl e | Inr y \<Rightarrow> Inr [y])"
      using d by (simp add: natural_key_def findall_runs_digits split: sum.splits)
    with s2(1) have "kd = [PyInt (decimal d)]"
      using natural_token_digits [OF d] by (auto split: if_splits sum.splits)
    with s1 s2 ka show ?thesis by simp
  qed
  from k1 obtain ka where ka: "natural_key p = Inr ka"
  proof -
    have "p = [] \<or> d1 @ r1 = [] \<or> is_decimal (last p) \<noteq> is_decimal (hd (d1 @ r1))"
      using p d1 by (auto simp: list_all_iff)
    from natural_key_split [OF this k1] show ?thesis using that by blast
  qed
  from run [OF d1 r1 k1 ka] obtain kr1 where e1: "k1 = ka @ PyInt (decimal d1) # kr1" by blast
  from run [OF d2 r2 k2 ka] obtain kr2 where e2: "k2 = ka @ PyInt (decimal d2) # kr2" by blast
  show ?thesis unfolding e1 e2 using ne by (simp add: key_lt_common_prefix)
qed

lemma text_runs_lowercased:
  assumes t1: "t1 \<noteq> []" "list_all (\<lambda>c. \<not> is_decimal c) t1"
    and t2: "t2 \<noteq> []" "list_all (\<lambda>c. \<not> is_decimal c) t2"
    and p: "p = [] \<or> is_decimal (last p)"
    and r1: "r1 = [] \<or> is_decimal (hd r1)"
    and r2: "r2 = [] \<or> is_decimal (hd r2)"
    and k1: "natural_key (p @ t1 @ r1) = Inr k1"
    and k2: "natural_key (p @ t2 @ r2) = Inr k2"
    and ne: "lower t1 \<noteq> lower t2"
  shows "key_lt k1 k2 = Inr (str_lt (lower t1) (lower t2))"
proof -
  have run: "\<exists>kr. k = ka @ PyStr (lower t) # kr"
    if t: "t \<noteq> []" "list_all (\<lambda>c. \<not> is_decimal c) t" and r: "r = [] \<or> is_decimal (hd r)"
      and k: "natural_key (p @ t @ r) = Inr k" and ka: "natural_key p = Inr ka" for t r k ka
  proof -
    have hd: "\<not> is_decimal (hd t)" and lst: "\<not> is_decimal (last t)"
      using t by (auto simp: list_all_iff)
    have "p = [] \<or> t @ r = [] \<or> is_decimal (last p) \<noteq> is_decimal (hd (t @ r))"
      using p t hd by auto
    from natural_key_split [OF this k] obtain ka' kb where
      s1: "natural_key p = Inr ka'" "natural_key (t @ r) = Inr kb" "k = ka' @ kb" by blast
    have "t = [] \<or> r = [] \<or> is_decimal (last t) \<noteq> is_decimal (hd r)"
      using r lst by auto
    from natural_key_split [OF this s1(2)] obtain kd kr where
      s2: "natural_key t = Inr kd" "kb = kd @ kr" by blast
    have "natural_key t = (case natural_token t of Inl e \<Rightarrow> Inl e | Inr y \<Rightarrow> Inr [y])"
      using t by (simp add: natural_key_def findall_runs_text split: sum.splits)
    with s2(1) have "kd = [PyStr (lower t)]"
      using natural_token_text [OF t(1) hd] by (auto split: if_splits sum.splits)
    with s1 s2 ka show ?thesis by simp
  qed
  from k1 obtain ka where ka: "natural_key p = Inr ka"
  proof -
    have "p = [] \<or> t1 @ r1 = [] \<or> is_decimal (last p) \<noteq> is_decimal (hd (t1 @ r1))"
      using p t1 by (auto simp: list_all_iff)
    from natural_key_split [OF this k1] show ?thesis using that by blast
  qed
  from run [OF t1 r1 k1 ka] obtain kr1 where e1: "k1 = ka @ PyStr (lower t1) # kr1" by blast
  from run [OF t2 r2 k2 ka] obtain kr2 where e2: "k2 = ka @ PyStr (lower t2) # kr2" by blast
  show ?thesis unfolding e1 e2 using ne by (simp add: key_lt_common_prefix)
qed

lemma findall_runs_hd:
  "s \<noteq> [] \<Longrightarrow> findall_runs s \<noteq> [] \<and> hd (hd (findall_runs s)) = hd s"
  by (cases s) auto

lemma findall_runs_homogeneous:
  "t \<in> set (findall_runs s) \<Longrightarrow>
   t \<noteq> [] \<and> (list_all is_decimal t \<or> list_all (\<lambda>c. \<not> is_decimal c) t)"
proof (induction s rule: findall_runs.induct)
  case 1
  then show ?case by simp
next
  case (2 c cs)
  show ?case
  proof (cases "is_decimal c")
    case True
    with "2.prems" consider "t = c # takeWhile is_decimal cs"
      | "t \<in> set (findall_runs (dropWhile is_decimal cs))" by auto
    then show ?thesis
    proof cases
      case 1
      have "\<forall>x\<in>set (takeWhile is_decimal cs). is_decimal x"
        by (auto dest: set_takeWhileD)
      with 1 True show ?thesis by (simp add: list_all_iff)
    next
      case 2
      with True show ?thesis by (rule "2.IH"(1))
    qed
  next
    case False
    with "2.prems" consider "t = c # takeWhile (\<lambda>x. \<not> is_decimal x) cs"
      | "t \<in> set (findall_runs (dropWhile (\<lambda>x. \<not> is_decimal x) cs))" by auto
    then show ?thesis
    proof cases
      case 1
      have "\<forall>x\<in>set (takeWhile (\<lambda>x. \<not> is_decimal x) cs). \<not> is_decimal x"
        by (auto dest: set_takeWhileD)
      with 1 False show ?thesis by (simp add: list_all_iff)
    next
      case 2
      with False show ?thesis by (rule "2.IH"(2))
    qed
  qed
qed

lemma findall_runs_alternating:
  "alternating (map (\<lambda>t. is_decimal (hd t)) (findall_runs s))"
proof (induction s rule: findall_runs.induct)
  case 1
  then show ?case by simp
next
  case (2 c cs)
  have step: "alternating (b # map (\<lambda>t. is_decimal (hd t)) (findall_runs rest))"
    if "alternating (map (\<lambda>t. is_decimal (hd t)) (findall_runs rest))"
      and "rest \<noteq> [] \<Longrightarrow> is_decimal (hd rest) \<noteq> b" for b rest
  proof (cases "rest = []")
    case True
    then show ?thesis by simp
  next
    case False
    with findall_runs_hd [of rest] obtain t ts where
      "findall_runs rest = t # ts" "hd t = hd rest"
      by (cases "findall_runs rest") auto
    with that False show ?thesis by simp
  qed
  show ?case
  proof (cases "is_decimal c")
    case True
    have "alternating (True # map (\<lambda>t. is_decimal (hd t)) (findall_runs (dropWhile is_decimal cs)))"
    proof (rule step)
      show "alternating (map (\<lambda>t. is_decimal (hd t)) (findall_runs (dropWhile is_decimal cs)))"
        using True by (rule "2.IH"(1))
    next
      assume "dropWhile is_decimal cs \<noteq> []"
      then show "is_decimal (hd (dropWhile is_decimal cs)) \<noteq> True"
        using hd_dropWhile [of is_decimal cs] by simp
    qed
    with True show ?thesis by simp
  next
    case False
    let ?Q = "\<lambda>x. \<not> is_decimal x"
    have "alternating (False # map (\<lambda>t. is_decimal (hd t)) (findall_runs (dropWhile ?Q cs)))"
    proof (rule step)
      show "alternating (map (\<lambda>t. is_decimal (hd t)) (findall_runs (dropWhile ?Q cs)))"
        using False by (rule "2.IH"(2))
    next
      assume "dropWhile ?Q cs \<noteq> []"
      then show "is_decimal (hd (dropWhile ?Q cs)) \<noteq> False"
        using hd_dropWhile [of ?Q cs] by simp
    qed
    with False show ?thesis by simp
  qed
qed

lemma natural_token_kind:
  assumes "natural_token t = Inr tok" and "t \<noteq> []"
    and "list_all is_decimal t \<or> list_all (\<lambda>c. \<not> is_decimal c) t"
  shows "is_int tok = is_decimal (hd t)"
proof (cases "is_decimal (hd t)")
  case True
  with assms(2,3) have "list_all is_decimal t" by (cases t) auto
  with assms(1,2) True show ?thesis
    by (auto simp: natural_token_digits split: if_splits)
next
  case False
  with assms(1,2) show ?thesis
    by (auto simp: natural_token_text split: if_splits)
qed

lemma natural_key_kinds:
  assumes "natural_key s = Inr k"
  shows "map is_int k = map (\<lambda>t. is_decimal (hd t)) (findall_runs s)"
proof -
  have all2: "list_all2 (\<lambda>t tok. natural_token t = Inr tok) (findall_runs s) k"
    using assms unfolding natural_key_def by (rule comprehension_all2)
  show ?thesis
  proof (rule nth_equalityI)
    show "length (map is_int k) = length (map (\<lambda>t. is_decimal (hd t)) (findall_runs s))"
      using all2 by (simp add: list_all2_lengthD)
  next
    fix i assume "i < length (map is_int k)"
    then have i: "i < length k" by simp
    with all2 have len: "i < length (findall_runs s)" by (simp add: list_all2_lengthD)
    from all2 i have tok: "natural_token (findall_runs s ! i) = Inr (k ! i)"
      by (simp add: list_all2_conv_all_nth)
    have "findall_runs s ! i \<in> set (findall_runs s)" using len by simp
    from findall_runs_homogeneous [OF this] natural_token_kind [OF tok]
    have "is_int (k ! i) = is_decimal (hd (findall_runs s ! i))" by blast
    with i len show "map is_int k ! i = map (\<lambda>t. is_decimal (hd t)) (findall_runs s) ! i"
      by simp
  qed
qed

lemma natural_key_alternating: "natural_key s = Inr k \<Longrightarrow> alternating (map is_int k)"
  using findall_runs_alternating [of s] by (simp add: natural_key_kinds)

lemma alternating_nth: "alternating bs \<Longrightarrow> i < length bs \<Longrightarrow> bs ! i = (bs ! 0 = even i)"
proof (induction bs arbitrary: i rule: alternating.induct)
  case 1
  then show ?case by simp
next
  case (2 x)
  then show ?case by simp
next
  case (3 x y zs)
  show ?case
  proof (cases i)
    case 0
    then show ?thesis by simp
  next
    case (Suc j)
    with 3 have "(y # zs) ! j = ((y # zs) ! 0 = even j)" by simp
    with 3 Suc show ?thesis by auto
  qed
qed

lemma key_lt_defined:
  "(\<And>i. i < length ka \<Longrightarrow> i < length kb \<Longrightarrow> is_int (ka ! i) = is_int (kb ! i)) \<Longrightarrow>
   \<exists>r. key_lt ka kb = Inr r"
proof (induction ka kb rule: key_lt.induct)
  case (4 x xs y ys)
  show ?case
  proof (cases "x = y")
    case True
    have "\<exists>r. key_lt xs ys = Inr r"
    proof (rule "4.IH" [OF True])
      fix i assume "i < length xs" "i < length ys"
      then show "is_int (xs ! i) = is_int (ys ! i)" using "4.prems" [of "Suc i"] by simp
    qed
    with True show ?thesis by simp
  next
    case False
    have "is_int x = is_int y" using "4.prems" [of 0] by simp
    then obtain r where "token_lt x y = Inr r" by (cases x; cases y) auto
    with False show ?thesis by simp
  qed
qed auto

lemma key_lt_mixed:
  assumes "natural_key a = Inr ka" "natural_key b = Inr kb"
    and "i < length ka" "i < length kb" "is_int (ka ! i) \<noteq> is_int (kb ! i)"
  shows "key_lt ka kb = Inl TypeError"
proof -
  have kind: "is_int (k ! i) = (is_int (k ! 0) = even i)"
    if "natural_key s = Inr k" "i < length k" for s k
  proof -
    have "map is_int k ! i = (map is_int k ! 0 = even i)"
      using natural_key_alternating [OF that(1)] that(2) by (intro alternating_nth) auto
    moreover have "0 < length k" using that(2) by (cases k) auto
    ultimately show ?thesis using that(2) by (simp only: nth_map)
  qed
  from kind [OF assms(1,3)] kind [OF assms(2,4)] assms(5)
  have ne: "is_int (ka ! 0) \<noteq> is_int (kb ! 0)" by blast
  obtain x xs y ys where k: "ka = x # xs" "kb = y # ys"
    using assms(3,4) by (cases ka; cases kb) auto
  with ne have "is_int x \<noteq> is_int y" by simp
  then have "x \<noteq> y" and "token_lt x y = Inl TypeError"
    by (cases x; cases y; auto)+
  with k show ?thesis by simp
qed

lemma key_lt_error_iff:
  assumes "natural_key a = Inr ka" "natural_key b = Inr kb"
  shows "(\<exists>e. key_lt ka kb = Inl e) \<longleftrightarrow>
     (\<exists>i. i < length ka \<and> i < length kb \<and> is_int (ka ! i) \<noteq> is_int (kb ! i))"
proof
  assume "\<exists>e. key_lt ka kb = Inl e"
  then show "\<exists>i. i < length ka \<and> i < length kb \<and> is_int (ka ! i) \<noteq> is_int (kb ! i)"
    using key_lt_defined [of ka kb] by (metis sum.distinct(1))
next
  assume "\<exists>i. i < length ka \<and> i < length kb \<and> is_int (ka ! i) \<noteq> is_int (kb ! i)"
  then show "\<exists>e. key_lt ka kb = Inl e"
    using key_lt_mixed [OF assms] by blast
qed

lemma sort_names_mixed:
  assumes "natural_key a = Inr ka" "natural_key b = Inr kb"
    and "i < length ka" "i < length kb" "is_int (ka ! i) \<noteq> is_int (kb ! i)"
  shows "sort_names r [a, b] = Inl TypeError"
proof -
  have 1: "key_lt ka kb = Inl TypeError" using assms by (rule key_lt_mixed)
  have 2: "key_lt kb ka = Inl TypeError"
    using assms(2,1,4,3) assms(5) [symmetric] by (rule key_lt_mixed)
  show ?thesis using assms(1,2) 1 2 by (cases r) (simp_all add: sort_names_def Let_def)
qed

lemma mixed_iff:
  "mixed ka kb \<longleftrightarrow> (\<exists>i. i < length ka \<and> i < length kb \<and> is_int (ka ! i) \<noteq> is_int (kb ! i))"
  unfolding mixed_def list_ex_iff set_zip by auto

lemma mixed_sym: "mixed ka kb \<longleftrightarrow> mixed kb ka"
  unfolding mixed_iff by auto

lemma insort_key_total:
  "(\<And>y. y \<in> set ys \<Longrightarrow> \<exists>r. key_lt (fst x) (fst y) = Inr r) \<Longrightarrow> \<exists>zs. insort_key x ys = Inr zs"
proof (induction ys)
  case Nil
  then show ?case by simp
next
  case (Cons y ys)
  obtain r where r: "key_lt (fst x) (fst y) = Inr r" using Cons.prems [of y] by auto
  obtain zs where "insort_key x ys = Inr zs" using Cons.IH Cons.prems by auto
  with r show ?case by (cases r) auto
qed

lemma sort_loop_total:
  "(\<And>x y. x \<in> set acc \<union> set xs \<Longrightarrow> y \<in> set acc \<union> set xs \<Longrightarrow>
      \<exists>r. key_lt (fst x) (fst y) = Inr r) \<Longrightarrow>
   \<exists>zs. sort_loop acc xs = Inr zs"
proof (induction xs arbitrary: acc)
  case Nil
  then show ?case by simp
next
  case (Cons x xs)
  have "\<exists>zs. insort_key x acc = Inr zs"
    by (rule insort_key_total) (rule Cons.prems, auto)
  then obtain acc' where acc': "insort_key x acc = Inr acc'" by blast
  then have "set acc' = insert x (set acc)"
    using insort_key_set [OF acc'] by (metis set_mset_add_mset_insert set_mset_mset)
  then have "\<exists>zs. sort_loop acc' xs = Inr zs"
    by (intro Cons.IH Cons.prems) auto
  with acc' show ?case by simp
qed

lemma comprehension_total:
  "(\<And>x. x \<in> set xs \<Longrightarrow> \<exists>y. f x = Inr y) \<Longrightarrow> \<exists>ys. comprehension f xs = Inr ys"
proof (induction xs)
  case Nil
  then show ?case by simp
next
  case (Cons x xs)
  obtain y where "f x = Inr y" using Cons.prems [of x] by auto
  moreover obtain ys where "comprehension f xs = Inr ys" using Cons by auto
  ultimately show ?case by simp
qed

lemma sort_names_total:
  assumes keys: "\<And>n. n \<in> set names \<Longrightarrow> \<exists>k. natural_key n = Inr k"
    and unmixed: "\<And>a b ka kb. a \<in> set names \<Longrightarrow> b \<in> set names \<Longrightarrow>
        natural_key a = Inr ka \<Longrightarrow> natural_key b = Inr kb \<Longrightarrow> \<not> mixed ka kb"
  shows "\<exists>ys. sort_names r names = Inr ys"
proof -
  obtain ks where ks: "comprehension natural_key names = Inr ks"
    using comprehension_total [of names natural_key] keys by blast
  then have all2: "list_all2 (\<lambda>n k. natural_key n = Inr k) names ks"
    by (rule comprehension_all2)
  let ?kvs = "zip ks names"
  have keyed: "natural_key (snd p) = Inr (fst p) \<and> snd p \<in> set names" if "p \<in> set ?kvs" for p
    using that all2 by (auto simp: list_all2_conv_all_nth set_zip)
  have cmp: "\<exists>r. key_lt (fst x) (fst y) = Inr r" if "x \<in> set ?kvs" "y \<in> set ?kvs" for x y
  proof -
    have "\<not> mixed (fst x) (fst y)"
      using keyed [OF that(1)] keyed [OF that(2)] unmixed by blast
    then show ?thesis
      using key_lt_defined [of "fst x" "fst y"] unfolding mixed_iff by blast
  qed
  have "set (if r then rev ?kvs else ?kvs) = set ?kvs" by simp
  then have "\<exists>zs. sort_loop [] (if r then rev ?kvs else ?kvs) = Inr zs"
    by (intro sort_loop_total cmp) (simp_all only: set_simps Un_empty_left)
  then obtain zs where "sort_loop [] (if r then rev ?kvs else ?kvs) = Inr zs" by blast
  with ks show ?thesis by (simp add: sort_names_def Let_def)
qed

lemma sorted_wrt_related:
  "sorted_wrt R xs \<Longrightarrow> a \<in> set xs \<Longrightarrow> b \<in> set xs \<Longrightarrow> a \<noteq> b \<Longrightarrow> R a b \<or> R b a"
  by (induction xs) auto

lemma sort_names_mixed_fails:
  assumes "a \<in> set names" "b \<in> set names"
    and "natural_key a = Inr ka" "natural_key b = Inr kb" "mixed ka kb"
  shows "\<exists>e. sort_names r names = Inl e"
proof (cases "sort_names r names")
  case (Inl e)
  then show ?thesis by blast
next
  case (Inr ys)
  obtain i where i: "i < length ka" "i < length kb" "is_int (ka ! i) \<noteq> is_int (kb ! i)"
    using assms(5) unfolding mixed_iff by blast
  have 1: "key_lt ka kb = Inl TypeError" using assms(3,4) i by (rule key_lt_mixed)
  have 2: "key_lt kb ka = Inl TypeError"
    using assms(4,3) i(2,1) i(3) [symmetric] by (rule key_lt_mixed)
  have "set ys = set names" using sort_names_props(1) [OF Inr] by (metis set_mset_mset)
  with assms have mem: "a \<in> set ys" "b \<in> set ys" by auto
  have ne: "a \<noteq> b" using assms(3,4) 1 key_lt_irrefl [of ka] by auto
  have "in_order a b \<or> in_order b a"
  proof (cases r)
    case True
    from sort_names_props(4) [OF Inr True] mem ne show ?thesis
      using sorted_wrt_related [of "\<lambda>a b. in_order b a" ys a b] by blast
  next
    case False
    from sort_names_props(3) [OF Inr False] mem ne show ?thesis
      using sorted_wrt_related [of in_order ys a b] by blast
  qed
  with assms(3,4) 1 2 show ?thesis by (auto simp: in_order_def)
qed

lemma chr_lower_cases:
  "chr_lower c = c \<or>
   ((of_char (chr_lower c) :: nat) = of_char c + 32
    \<and> ((65 \<le> (of_char c :: nat) \<and> (of_char c :: nat) \<le> 90)
       \<or> (192 \<le> (of_char c :: nat) \<and> (of_char c :: nat) \<le> 214)
       \<or> (216 \<le> (of_char c :: nat) \<and> (of_char c :: nat) \<le> 222)))"
  by (auto simp: chr_lower_def Let_def)

lemma is_decimal_lower [simp]: "is_decimal (chr_lower c) = is_decimal c"
  using chr_lower_cases [of c] by (auto simp: is_decimal_def)

lemma chr_isdigit_lower [simp]: "chr_isdigit (chr_lower c) = chr_isdigit c"
  using chr_lower_cases [of c] by (auto simp: chr_isdigit_def is_decimal_def)

lemma chr_lower_idem [simp]: "chr_lower (chr_lower c) = chr_lower c"
proof -
  have "(of_char (chr_lower c) :: nat) \<noteq> of_char c \<Longrightarrow>
        \<not> ((65 \<le> (of_char (chr_lower c) :: nat) \<and> (of_char (chr_lower c) :: nat) \<le> 90)
       \<or> (192 \<le> (of_char (chr_lower c) :: nat) \<and> (of_char (chr_lower c) :: nat) \<le> 214)
       \<or> (216 \<le> (of_char (chr_lower c) :: nat) \<and> (of_char (chr_lower c) :: nat) \<le> 222))"
    using chr_lower_cases [of c] by auto
  then show ?thesis
    by (cases "chr_lower c = c") (auto simp: chr_lower_def [of "chr_lower c"] Let_def)
qed

lemma chr_lower_decimal: "is_decimal c \<Longrightarrow> chr_lower c = c"
  by (auto simp: chr_lower_def Let_def is_decimal_def)

lemma findall_runs_lower: "findall_runs (lower s) = map lower (findall_runs s)"
proof (induction s rule: findall_runs.induct)
  case 1
  then show ?case by (simp add: lower_def)
next
  case (2 c cs)
  have tw: "takeWhile Q (map chr_lower cs) = map chr_lower (takeWhile (Q \<circ> chr_lower) cs)"
    and dw: "dropWhile Q (map chr_lower cs) = map chr_lower (dropWhile (Q \<circ> chr_lower) cs)" for Q
    by (simp_all add: takeWhile_map dropWhile_map)
  have c1: "is_decimal \<circ> chr_lower = is_decimal"
    and c2: "(\<lambda>x. \<not> is_decimal x) \<circ> chr_lower = (\<lambda>x. \<not> is_decimal x)"
    by (auto simp: fun_eq_iff)
  show ?case
  proof (cases "is_decimal c")
    case True
    with "2.IH"(1) show ?thesis by (simp add: lower_def tw dw c1)
  next
    case False
    with "2.IH"(2) show ?thesis by (simp add: lower_def tw dw c2)
  qed
qed

lemma natural_token_lower: "natural_token (lower t) = natural_token t"
proof -
  have 1: "isdigit (lower t) = isdigit t"
    by (simp add: isdigit_def lower_def list_all_iff)
  have 2: "list_all is_decimal (lower t) = list_all is_decimal t"
    by (simp add: lower_def list_all_iff)
  have 3: "list_all is_decimal t \<Longrightarrow> lower t = t"
    by (auto simp: lower_def list_all_iff chr_lower_decimal intro: map_idI)
  have 4: "py_int (lower t) = py_int t"
    using 2 3 by (auto simp: py_int_def)
  have 5: "lower (lower t) = lower t" by (simp add: lower_def)
  show ?thesis by (simp add: natural_token_def 1 4 5)
qed

lemma comprehension_map: "comprehension f (map g xs) = comprehension (\<lambda>x. f (g x)) xs"
  by (induction xs) (auto split: sum.splits)

lemma natural_key_lower: "natural_key (lower s) = natural_key s"
  by (simp add: natural_key_def findall_runs_lower comprehension_map natural_token_lower)

lemma natural_key_ignores_case: "lower a = lower b \<Longrightarrow> natural_key a = natural_key b"
  by (metis natural_key_lower)

section \<open>Properties: the boomerang\<close>

lemma slice_inner:
  assumes "2 \<le> length xs"
  shows "map (\<lambda>i. xs ! nat i) [1 .. int (length xs) - 2] = butlast (tl xs)"
proof (rule nth_equalityI)
  show "length (map (\<lambda>i. xs ! nat i) [1 .. int (length xs) - 2]) = length (butlast (tl xs))"
    using assms by simp
next
  fix k assume "k < length (map (\<lambda>i. xs ! nat i) [1 .. int (length xs) - 2])"
  then have k: "k + 2 < length xs" by simp
  then have "[1 .. int (length xs) - 2] ! k = 1 + int k"
    by (simp add: nth_upto)
  moreover have "butlast (tl xs) ! k = xs ! Suc k"
    using k by (simp add: nth_butlast nth_tl)
  ultimately show "map (\<lambda>i. xs ! nat i) [1 .. int (length xs) - 2] ! k = butlast (tl xs) ! k"
    using k by (simp add: nat_add_distrib)
qed

lemma slice_down_endpoints:
  assumes "1 < length xs"
  shows "slice_down xs (- 2) 0 = rev (butlast (tl xs))"
proof -
  have a: "adjust_index (int (length xs)) (- 2) = int (length xs) - 2"
    and b: "adjust_index (int (length xs)) 0 = 0"
    using assms by (auto simp: adjust_index_def)
  have "slice_down xs (- 2) 0 = map (\<lambda>i. xs ! nat i) (rev [1 .. int (length xs) - 2])"
    by (simp add: slice_down_def Let_def a b del: rev_map)
  also have "\<dots> = rev (map (\<lambda>i. xs ! nat i) [1 .. int (length xs) - 2])"
    by (simp only: rev_map)
  also have "\<dots> = rev (butlast (tl xs))"
    using assms by (simp only: slice_inner)
  finally show ?thesis .
qed

text \<open>
  Claim C3.  With more than one frame, the boomerang appends the list reversed without its
  first and last element: \<open>[A, B, C, D]\<close> becomes \<open>[A, B, C, D, C, B]\<close>.  A list of one frame
  (and the empty list) comes back unchanged, and so does every list when the option is off.
\<close>

theorem boomerang_appends_interior_reversed:
  "(1 < length frames \<longrightarrow> boomerang True frames = frames @ rev (butlast (tl frames)))
   \<and> boomerang True [a, b, c, d] = [a, b, c, d, c, b]
   \<and> boomerang True [a] = [a]
   \<and> (length frames \<le> 1 \<longrightarrow> boomerang True frames = frames)
   \<and> boomerang False frames = frames"
proof -
  have "slice_down [a, b, c, d] (- 2) 0 = rev (butlast (tl [a, b, c, d]))"
    by (rule slice_down_endpoints) simp
  then have "boomerang True [a, b, c, d] = [a, b, c, d, c, b]"
    by (simp add: boomerang_def)
  moreover have "boomerang True [a] = [a]"
    by (simp add: boomerang_def)
  ultimately show ?thesis
    by (simp add: boomerang_def slice_down_endpoints)
qed

theorem boomerang_appends_interior_reversed_witness:
  "1 < length [1, 2, 3 :: nat] \<and> boomerang True [1, 2, 3 :: nat] = [1, 2, 3, 2]
   \<and> length [7 :: nat] \<le> 1 \<and> boomerang True [7 :: nat] = [7]"
proof -
  have 1: "1 < length [1, 2, 3 :: nat]" and 2: "length [7 :: nat] \<le> 1" by simp_all
  have 3: "rev (butlast (tl [1, 2, 3 :: nat])) = [2]" by simp
  from 1 boomerang_appends_interior_reversed [of "[1, 2, 3 :: nat]" 0 0 0 0]
  have "boomerang True [1, 2, 3 :: nat] = [1, 2, 3] @ rev (butlast (tl [1, 2, 3]))" by blast
  then have 4: "boomerang True [1, 2, 3 :: nat] = [1, 2, 3, 2]" by (simp only: 3 append.simps)
  from 2 boomerang_appends_interior_reversed [of "[7 :: nat]" 0 0 0 0]
  have 5: "boomerang True [7 :: nat] = [7]" by blast
  from 1 2 4 5 show ?thesis by blast
qed

section \<open>Archive filter: the claim\<close>

text \<open>
  Claim C2.  The filter accepts an entry exactly when it is not under the \<open>__MACOSX\<close>
  directory, its base name does not begin with a dot, it is not a directory entry, and the
  lowercased extension of its base name is one of the eight supported ones.  So
  \<open>__MACOSX/a.png\<close>, \<open>._a.png\<close> and \<open>dir/\<close> are excluded and \<open>a.PNG\<close> is included, and the
  listing keeps the accepted entries in archive order.
\<close>

theorem archive_filter_accepts_exactly:
  "(is_valid_zip_image name \<longleftrightarrow>
      \<not> spec_under_macosx name \<and> \<not> spec_dot_file name \<and> \<not> spec_directory name
      \<and> (\<exists>e. spec_extension name e \<and> lower e \<in> spec_supported))
   \<and> \<not> is_valid_zip_image ''__MACOSX/a.png''
   \<and> \<not> is_valid_zip_image ''._a.png''
   \<and> \<not> is_valid_zip_image ''dir/''
   \<and> is_valid_zip_image ''a.PNG''
   \<and> list_images_in_zip namelist =
       filter (\<lambda>n. \<not> spec_under_macosx n \<and> \<not> spec_dot_file n \<and> \<not> spec_directory n
                   \<and> (\<exists>e. spec_extension n e \<and> lower e \<in> spec_supported)) namelist"
proof -
  have 1: "\<not> is_valid_zip_image ''__MACOSX/a.png''" by code_simp
  have 2: "\<not> is_valid_zip_image ''._a.png''" by code_simp
  have 3: "\<not> is_valid_zip_image ''dir/''" by code_simp
  have 4: "is_valid_zip_image ''a.PNG''" by code_simp
  have 5: "list_images_in_zip namelist =
       filter (\<lambda>n. \<not> spec_under_macosx n \<and> \<not> spec_dot_file n \<and> \<not> spec_directory n
                   \<and> (\<exists>e. spec_extension n e \<and> lower e \<in> spec_supported)) namelist"
    unfolding list_images_in_zip_def by (rule filter_cong) (simp_all add: is_valid_zip_image_iff)
  from 1 2 3 4 5 is_valid_zip_image_iff [of name] show ?thesis by blast
qed

theorem archive_filter_accepts_exactly_witness:
  "is_valid_zip_image ''frames/a.JPeG''
   \<and> \<not> spec_under_macosx ''frames/a.JPeG'' \<and> \<not> spec_dot_file ''frames/a.JPeG''
   \<and> \<not> spec_directory ''frames/a.JPeG''
   \<and> (\<exists>e. spec_extension ''frames/a.JPeG'' e \<and> lower e \<in> spec_supported)
   \<and> list_images_in_zip [''frames/'', ''frames/a.JPeG'', ''frames/.b.png'', ''c.txt'']
       = [''frames/a.JPeG'']"
proof -
  have v: "is_valid_zip_image ''frames/a.JPeG''" by code_simp
  have l: "list_images_in_zip [''frames/'', ''frames/a.JPeG'', ''frames/.b.png'', ''c.txt'']
       = [''frames/a.JPeG'']" by code_simp
  from v l archive_filter_accepts_exactly [of "''frames/a.JPeG''" "[]"] show ?thesis by blast
qed

section \<open>Natural sort: the claims\<close>

text \<open>
  Claim C1.  Where two names first differ in a run of digits, their keys compare by the
  integer value of the two runs; where they first differ in a run of non-digits, by the
  lowercased runs, so that names differing in case only have the same key.  In particular
  the key of \<open>img2.png\<close> is smaller than those of \<open>img10.png\<close> and \<open>img2a.png\<close>.  When the
  sort returns, its result is a permutation of the names in ascending (with \<open>reverse\<close>,
  descending) key order in which names of equal key keep their original relative order.
\<close>

theorem natural_key_order_and_stable_sort:
  "(digit_run p d1 r1 \<and> digit_run p d2 r2
      \<and> natural_key (p @ d1 @ r1) = Inr k1 \<and> natural_key (p @ d2 @ r2) = Inr k2
      \<and> decimal d1 \<noteq> decimal d2
      \<longrightarrow> key_lt k1 k2 = Inr (decimal d1 < decimal d2))
   \<and> (text_run q t1 s1 \<and> text_run q t2 s2
      \<and> natural_key (q @ t1 @ s1) = Inr j1 \<and> natural_key (q @ t2 @ s2) = Inr j2
      \<and> lower t1 \<noteq> lower t2
      \<longrightarrow> key_lt j1 j2 = Inr (str_lt (lower t1) (lower t2)))
   \<and> (lower a = lower b \<longrightarrow> natural_key a = natural_key b)
   \<and> natural_key ''img2.png'' = Inr [PyStr ''img'', PyInt 2, PyStr ''.png'']
   \<and> natural_key ''img10.png'' = Inr [PyStr ''img'', PyInt 10, PyStr ''.png'']
   \<and> natural_key ''img2a.png'' = Inr [PyStr ''img'', PyInt 2, PyStr ''a.png'']
   \<and> key_lt [PyStr ''img'', PyInt 2, PyStr ''.png''] [PyStr ''img'', PyInt 10, PyStr ''.png'']
       = Inr True
   \<and> key_lt [PyStr ''img'', PyInt 2, PyStr ''.png''] [PyStr ''img'', PyInt 2, PyStr ''a.png'']
       = Inr True
   \<and> (sort_names r names = Inr ys \<longrightarrow>
        mset ys = mset names
        \<and> (\<forall>k. filter (\<lambda>n. natural_key n = Inr k) ys = filter (\<lambda>n. natural_key n = Inr k) names)
        \<and> sorted_wrt (if r then (\<lambda>x y. in_order y x) else in_order) ys)"
proof -
  have 1: "key_lt k1 k2 = Inr (decimal d1 < decimal d2)"
    if "digit_run p d1 r1" "digit_run p d2 r2"
      "natural_key (p @ d1 @ r1) = Inr k1" "natural_key (p @ d2 @ r2) = Inr k2"
      "decimal d1 \<noteq> decimal d2"
    using that unfolding digit_run_def by (intro digit_runs_by_value [of d1 d2 p r1 r2]) auto
  have 2: "key_lt j1 j2 = Inr (str_lt (lower t1) (lower t2))"
    if "text_run q t1 s1" "text_run q t2 s2"
      "natural_key (q @ t1 @ s1) = Inr j1" "natural_key (q @ t2 @ s2) = Inr j2"
      "lower t1 \<noteq> lower t2"
    using that unfolding text_run_def by (intro text_runs_lowercased [of t1 t2 q s1 s2]) auto
  have 3: "natural_key ''img2.png'' = Inr [PyStr ''img'', PyInt 2, PyStr ''.png'']"
    by code_simp
  have 4: "natural_key ''img10.png'' = Inr [PyStr ''img'', PyInt 10, PyStr ''.png'']"
    by code_simp
  have 5: "natural_key ''img2a.png'' = Inr [PyStr ''img'', PyInt 2, PyStr ''a.png'']"
    by code_simp
  have 6: "key_lt [PyStr ''img'', PyInt 2, PyStr ''.png'']
      [PyStr ''img'', PyInt 10, PyStr ''.png''] = Inr True"
    by simp
  have 7: "key_lt [PyStr ''img'', PyInt 2, PyStr ''.png'']
      [PyStr ''img'', PyInt 2, PyStr ''a.png''] = Inr True"
    by simp
  have 8: "mset ys = mset names
        \<and> (\<forall>k. filter (\<lambda>n. natural_key n = Inr k) ys = filter (\<lambda>n. natural_key n = Inr k) names)
        \<and> sorted_wrt (if r then (\<lambda>x y. in_order y x) else in_order) ys"
    if "sort_names r names = Inr ys"
    using sort_names_props [OF that] by (cases r) auto
  from 1 2 3 4 5 6 7 8 natural_key_ignores_case [of a b] show ?thesis by blast
qed

theorem natural_key_order_and_stable_sort_witness:
  "digit_run ''img'' ''2'' ''.png'' \<and> digit_run ''img'' ''10'' ''.png''
   \<and> natural_key (''img'' @ ''2'' @ ''.png'') = Inr [PyStr ''img'', PyInt 2, PyStr ''.png'']
   \<and> natural_key (''img'' @ ''10'' @ ''.png'') = Inr [PyStr ''img'', PyInt 10, PyStr ''.png'']
   \<and> decimal ''2'' \<noteq> decimal ''10''
   \<and> key_lt [PyStr ''img'', PyInt 2, PyStr ''.png''] [PyStr ''img'', PyInt 10, PyStr ''.png'']
       = Inr (decimal ''2'' < decimal ''10'')
   \<and> text_run ''7'' ''Ab'' ''1'' \<and> text_run ''7'' ''aC'' ''1''
   \<and> natural_key (''7'' @ ''Ab'' @ ''1'') = Inr [PyInt 7, PyStr ''ab'', PyInt 1]
   \<and> natural_key (''7'' @ ''aC'' @ ''1'') = Inr [PyInt 7, PyStr ''ac'', PyInt 1]
   \<and> lower ''Ab'' \<noteq> lower ''aC''
   \<and> key_lt [PyInt 7, PyStr ''ab'', PyInt 1] [PyInt 7, PyStr ''ac'', PyInt 1]
       = Inr (str_lt (lower ''Ab'') (lower ''aC''))
   \<and> lower ''IMG1.PNG'' = lower ''img1.png''
   \<and> natural_key ''IMG1.PNG'' = natural_key ''img1.png''
   \<and> sort_names False [''b.png'', ''B.png'', ''a10.png'', ''a9.png'', ''A9.png'']
       = Inr [''a9.png'', ''A9.png'', ''a10.png'', ''b.png'', ''B.png'']
   \<and> filter (\<lambda>n. natural_key n = Inr [PyStr ''a'', PyInt 9, PyStr ''.png''])
         [''a9.png'', ''A9.png'', ''a10.png'', ''b.png'', ''B.png'']
       = filter (\<lambda>n. natural_key n = Inr [PyStr ''a'', PyInt 9, PyStr ''.png''])
         [''b.png'', ''B.png'', ''a10.png'', ''a9.png'', ''A9.png'']"
proof -
  note inst = natural_key_order_and_stable_sort
    [where p = "''img''" and ?d1.0 = "''2''" and ?d2.0 = "''10''"
       and ?r1.0 = "''.png''" and ?r2.0 = "''.png''"
       and ?k1.0 = "[PyStr ''img'', PyInt 2, PyStr ''.png'']"
       and ?k2.0 = "[PyStr ''img'', PyInt 10, PyStr ''.png'']"
       and q = "''7''" and ?t1.0 = "''Ab''" and ?t2.0 = "''aC''"
       and ?s1.0 = "''1''" and ?s2.0 = "''1''"
       and ?j1.0 = "[PyInt 7, PyStr ''ab'', PyInt 1]"
       and ?j2.0 = "[PyInt 7, PyStr ''ac'', PyInt 1]"
       and a = "''IMG1.PNG''" and b = "''img1.png''"
       and r = False
       and names = "[''b.png'', ''B.png'', ''a10.png'', ''a9.png'', ''A9.png'']"
       and ys = "[''a9.png'', ''A9.png'', ''a10.png'', ''b.png'', ''B.png'']"]
  have d: "digit_run ''img'' ''2'' ''.png''" "digit_run ''img'' ''10'' ''.png''"
    by code_simp+
  have dk: "natural_key (''img'' @ ''2'' @ ''.png'') = Inr [PyStr ''img'', PyInt 2, PyStr ''.png'']"
    "natural_key (''img'' @ ''10'' @ ''.png'') = Inr [PyStr ''img'', PyInt 10, PyStr ''.png'']"
    by code_simp+
  have dn: "decimal ''2'' \<noteq> decimal ''10''" by code_simp
  have t: "text_run ''7'' ''Ab'' ''1''" "text_run ''7'' ''aC'' ''1''"
    by code_simp+
  have tk: "natural_key (''7'' @ ''Ab'' @ ''1'') = Inr [PyInt 7, PyStr ''ab'', PyInt 1]"
    "natural_key (''7'' @ ''aC'' @ ''1'') = Inr [PyInt 7, PyStr ''ac'', PyInt 1]"
    by code_simp+
  have tn: "lower ''Ab'' \<noteq> lower ''aC''" by code_simp
  have c: "lower ''IMG1.PNG'' = lower ''img1.png''" by code_simp
  have s: "sort_names False [''b.png'', ''B.png'', ''a10.png'', ''a9.png'', ''A9.png'']
       = Inr [''a9.png'', ''A9.png'', ''a10.png'', ''b.png'', ''B.png'']"
    by code_simp
  from inst d dk dn t tk tn c s show ?thesis by blast
qed

text \<open>
  Claim C9, as stated, fails: \<open>1.png\<close> and \<open>a.png\<close> both pass the archive filter, their keys
  hold an \<open>int\<close> and a \<open>str\<close> at position 0, comparing the keys raises \<open>TypeError\<close>, and so
  does sorting the two names.
\<close>

theorem mixed_keys_counterexample:
  "list_images_in_zip [''a.png'', ''1.png''] = [''a.png'', ''1.png'']
   \<and> natural_key ''a.png'' = Inr [PyStr ''a.png'']
   \<and> natural_key ''1.png'' = Inr [PyInt 1, PyStr ''.png'']
   \<and> mixed [PyStr ''a.png''] [PyInt 1, PyStr ''.png'']
   \<and> key_lt [PyStr ''a.png''] [PyInt 1, PyStr ''.png''] = Inl TypeError
   \<and> key_lt [PyInt 1, PyStr ''.png''] [PyStr ''a.png''] = Inl TypeError
   \<and> sort_names False [''a.png'', ''1.png''] = Inl TypeError
   \<and> sort_names True [''a.png'', ''1.png''] = Inl TypeError"
  by code_simp

text \<open>
  Claim C9, amended.  For two names that have keys, comparing the keys raises an exception
  exactly when the keys hold tokens of different type at a position they share.  The
  exception is \<open>TypeError\<close>, in both directions, and sorting any list that holds both names
  fails; no tie-break is applied.  When every name of a list has a key and no two of the keys
  are mixed, the sort returns.
\<close>

theorem mixed_keys_raise_type_error:
  "(natural_key a = Inr ka \<and> natural_key b = Inr kb \<longrightarrow>
      ((\<exists>e. key_lt ka kb = Inl e) \<longleftrightarrow> mixed ka kb)
      \<and> (mixed ka kb \<longrightarrow>
           key_lt ka kb = Inl TypeError \<and> key_lt kb ka = Inl TypeError
           \<and> sort_names r [a, b] = Inl TypeError
           \<and> (a \<in> set names \<and> b \<in> set names \<longrightarrow> (\<exists>e. sort_names r names = Inl e))))
   \<and> ((\<forall>n\<in>set names. \<exists>k. natural_key n = Inr k)
       \<and> (\<forall>x\<in>set names. \<forall>y\<in>set names. \<forall>kx ky.
             natural_key x = Inr kx \<and> natural_key y = Inr ky \<longrightarrow> \<not> mixed kx ky)
       \<longrightarrow> (\<exists>ys. sort_names r names = Inr ys))"
proof -
  have 1: "(\<exists>e. key_lt ka kb = Inl e) \<longleftrightarrow> mixed ka kb"
    if "natural_key a = Inr ka" "natural_key b = Inr kb"
    using key_lt_error_iff [OF that] by (simp add: mixed_iff)
  have 2: "key_lt ka kb = Inl TypeError \<and> key_lt kb ka = Inl TypeError
      \<and> sort_names r [a, b] = Inl TypeError"
    if k: "natural_key a = Inr ka" "natural_key b = Inr kb" and m: "mixed ka kb"
  proof -
    obtain i where i: "i < length ka" "i < length kb" "is_int (ka ! i) \<noteq> is_int (kb ! i)"
      using m unfolding mixed_iff by blast
    have "key_lt ka kb = Inl TypeError" using k i by (rule key_lt_mixed)
    moreover have "key_lt kb ka = Inl TypeError"
      using k(2,1) i(2,1) i(3) [symmetric] by (rule key_lt_mixed)
    moreover have "sort_names r [a, b] = Inl TypeError" using k i by (rule sort_names_mixed)
    ultimately show ?thesis by blast
  qed
  have 3: "\<exists>e. sort_names r names = Inl e"
    if "natural_key a = Inr ka" "natural_key b = Inr kb" "mixed ka kb"
      "a \<in> set names" "b \<in> set names"
    using that sort_names_mixed_fails by blast
  have 4: "\<exists>ys. sort_names r names = Inr ys"
    if "\<forall>n\<in>set names. \<exists>k. natural_key n = Inr k"
      "\<forall>x\<in>set names. \<forall>y\<in>set names. \<forall>kx ky.
             natural_key x = Inr kx \<and> natural_key y = Inr ky \<longrightarrow> \<not> mixed kx ky"
    using that by (intro sort_names_total) blast+
  from 1 2 3 4 show ?thesis by blast
qed

theorem mixed_keys_raise_type_error_witness:
  "natural_key ''1.png'' = Inr [PyInt 1, PyStr ''.png'']
   \<and> natural_key ''a.png'' = Inr [PyStr ''a.png'']
   \<and> mixed [PyInt 1, PyStr ''.png''] [PyStr ''a.png'']
   \<and> ''1.png'' \<in> set [''b.png'', ''1.png'', ''a.png'']
   \<and> ''a.png'' \<in> set [''b.png'', ''1.png'', ''a.png'']
   \<and> key_lt [PyInt 1, PyStr ''.png''] [PyStr ''a.png''] = Inl TypeError
   \<and> sort_names True [''1.png'', ''a.png''] = Inl TypeError
   \<and> (\<exists>e. sort_names True [''b.png'', ''1.png'', ''a.png''] = Inl e)"
proof -
  note inst = mixed_keys_raise_type_error
    [where a = "''1.png''" and b = "''a.png''" and ka = "[PyInt 1, PyStr ''.png'']"
       and kb = "[PyStr ''a.png'']" and r = True
       and names = "[''b.png'', ''1.png'', ''a.png'']"]
  have k: "natural_key ''1.png'' = Inr [PyInt 1, PyStr ''.png'']"
    "natural_key ''a.png'' = Inr [PyStr ''a.png'']"
    by code_simp+
  have m: "mixed [PyInt 1, PyStr ''.png''] [PyStr ''a.png'']" by code_simp
  have s: "''1.png'' \<in> set [''b.png'', ''1.png'', ''a.png'']"
    "''a.png'' \<in> set [''b.png'', ''1.png'', ''a.png'']" by simp_all
  from inst k m s show ?thesis by blast
qed

section \<open>Properties: images\<close>

lemma and_then_Inr: "and_then m f = Inr y \<longleftrightarrow> (\<exists>x. m = Inr x \<and> f x = Inr y)"
  by (cases m) (auto simp: and_then_def)

lemma and_then_Inl: "and_then m f = Inl e \<longleftrightarrow> m = Inl e \<or> (\<exists>x. m = Inr x \<and> f x = Inl e)"
  by (cases m) (auto simp: and_then_def)

lemma convert_mode [simp]: "mode (convert lib t im) = t"
  by (auto simp: convert_def Let_def split: prod.splits)

lemma convert_size [simp]: "size_wh (convert lib t im) = size_wh im"
  by (auto simp: convert_def Let_def split: prod.splits)

lemma convert_P_adaptive_mode [simp]: "mode (convert_P_adaptive lib n d im) = ''P''"
  by (auto simp: convert_P_adaptive_def Let_def split: prod.splits)

lemma convert_P_adaptive_size [simp]: "size_wh (convert_P_adaptive lib n d im) = size_wh im"
  by (auto simp: convert_P_adaptive_def Let_def split: prod.splits)

lemma resize_Inr:
  "resize lib m sz im = Inr im' \<Longrightarrow>
   1 \<le> fst sz \<and> 1 \<le> snd sz \<and> size_wh im' = (nat (fst sz), nat (snd sz)) \<and> mode im' = mode im
   \<and> info im' = info im"
  by (auto simp: resize_def split: if_splits)

lemma resize_total: "1 \<le> fst sz \<Longrightarrow> 1 \<le> snd sz \<Longrightarrow> \<exists>im'. resize lib m sz im = Inr im'"
  by (auto simp: resize_def)

lemma resize_Inl: "resize lib m sz im = Inl e \<longleftrightarrow> e = ValueError \<and> (fst sz < 1 \<or> snd sz < 1)"
  by (auto simp: resize_def)

section \<open>Properties: the encoder\<close>

lemma normalize_size_Inr:
  "normalize_size lib sz0 im = Inr im' \<Longrightarrow>
   size_wh im' = sz0 \<and> mode im' = mode im \<and> info im' = info im
   \<and> (size_wh im = sz0 \<longrightarrow> im' = im)"
  by (auto simp: normalize_size_def dest!: resize_Inr split: if_splits)

lemma normalize_size_total:
  "0 < fst sz0 \<Longrightarrow> 0 < snd sz0 \<Longrightarrow> \<exists>im'. normalize_size lib sz0 im = Inr im'"
  by (auto simp: normalize_size_def intro: resize_total)

lemma normalize_size_same: "size_wh im = sz0 \<Longrightarrow> normalize_size lib sz0 im = Inr im"
  by (simp add: normalize_size_def)

lemma matte_quantize_size [simp]: "size_wh (matte_quantize lib im) = size_wh im"
  by (simp add: matte_quantize_def Let_def composite_def new_image_def)

lemma process_frame_size [simp]: "size_wh (process_frame lib st im) = size_wh im"
  by (simp add: process_frame_def)

lemma gif_frames_Inr:
  assumes "gif_frames lib frames st = Inr processed"
  obtains normalized where
    "frames \<noteq> []"
    "list_all2 (\<lambda>f n. normalize_size lib (size_wh (hd frames)) f = Inr n) frames normalized"
    "processed = map (process_frame lib st) normalized"
  using assms
  by (auto simp: gif_frames_def and_then_Inr split: if_splits dest: comprehension_all2)

lemma gif_frames_geometry:
  assumes "gif_frames lib frames st = Inr processed"
  shows "length processed = length frames"
    and "\<forall>p\<in>set processed. size_wh p = size_wh (hd frames)"
proof -
  from assms obtain normalized where
    n: "list_all2 (\<lambda>f n. normalize_size lib (size_wh (hd frames)) f = Inr n) frames normalized"
    and p: "processed = map (process_frame lib st) normalized"
    by (rule gif_frames_Inr)
  from n p show "length processed = length frames" by (simp add: list_all2_lengthD)
  have "size_wh n = size_wh (hd frames)" if "n \<in> set normalized" for n
  proof -
    from that n obtain f where "normalize_size lib (size_wh (hd frames)) f = Inr n"
      by (auto simp: list_all2_conv_all_nth in_set_conv_nth)
    then show ?thesis by (simp add: normalize_size_Inr)
  qed
  with p show "\<forall>p\<in>set processed. size_wh p = size_wh (hd frames)" by auto
qed

lemma gif_frames_total:
  assumes "frames \<noteq> []" "0 < fst (size_wh (hd frames))" "0 < snd (size_wh (hd frames))"
  shows "\<exists>processed. gif_frames lib frames st = Inr processed"
proof -
  have "\<exists>ns. comprehension (normalize_size lib (size_wh (hd frames))) frames = Inr ns"
    by (rule comprehension_total) (rule normalize_size_total [OF assms(2,3)])
  with assms(1) show ?thesis by (auto simp: gif_frames_def and_then_def)
qed

lemma gif_frames_empty: "gif_frames lib [] st = Inl ValueError"
  by (simp add: gif_frames_def)

lemma build_gif_empty: "build_gif lib [] d l ds opt st = Inl ValueError"
  by (simp add: build_gif_def gif_frames_def and_then_def)

lemma build_gif_total:
  assumes "frames \<noteq> []" "0 < fst (size_wh (hd frames))" "0 < snd (size_wh (hd frames))"
  shows "\<exists>bytes. build_gif lib frames d l ds opt st = Inr bytes"
  using gif_frames_total [OF assms, of lib st] by (auto simp: build_gif_def and_then_def)

lemma build_gif_Inl:
  "build_gif lib frames d l ds opt st = Inl e \<longleftrightarrow> gif_frames lib frames st = Inl e"
  by (auto simp: build_gif_def and_then_Inl)

section \<open>Properties: the loading loop\<close>

lemma load_frames_result:
  "load_frames load names (frames, skipped) =
     (frames @ map (\<lambda>n. projr (load n)) (filter (\<lambda>n. \<not> isl (load n)) names),
      skipped @ filter (\<lambda>n. isl (load n)) names)"
proof (induction names arbitrary: frames skipped)
  case Nil
  then show ?case by simp
next
  case (Cons n ns)
  then show ?case by (cases "load n") simp_all
qed

section \<open>Properties: the loader\<close>

lemma convert_step_size [simp]: "size_wh (convert_step lib bg im) = size_wh im"
  by (auto simp: convert_step_def Let_def alpha_composite_def new_image_def split: option.splits)

lemma palette_step_size [simp]: "size_wh (palette_step lib p d im) = size_wh im"
  by (simp add: palette_step_def)

lemma palette_step_mode: "mode (palette_step lib p d im) = (if p then ''P'' else mode im)"
  by (simp add: palette_step_def)

lemma contain_Inr:
  "contain lib im box = Inr im' \<Longrightarrow>
   \<exists>sz. contain_size lib (size_wh im) box = Inr sz \<and> 1 \<le> fst sz \<and> 1 \<le> snd sz
        \<and> size_wh im' = (nat (fst sz), nat (snd sz)) \<and> mode im' = mode im"
  by (auto simp: contain_def and_then_Inr dest!: resize_Inr)

lemma stretch_height_ge: "stretch_height tw w h = Inr n \<Longrightarrow> 1 \<le> n"
  by (auto simp: stretch_height_def and_then_Inr)

lemma resize_step_cases:
  assumes "resize_step lib width fm im = Inr im'"
  shows "mode im' = mode im"
    and "nonempty_image im \<Longrightarrow> nonempty_image im'"
proof -
  have "mode im' = mode im \<and> (nonempty_image im \<longrightarrow> nonempty_image im')"
  proof (cases width)
    case None
    with assms show ?thesis by (simp add: resize_step_def)
  next
    case (Some tw)
    show ?thesis
    proof (cases "tw > 0")
      case False
      with assms Some show ?thesis by (simp add: resize_step_def)
    next
      case tw: True
      consider "fm = ''fit''" | "fm = ''stretch''" | "fm \<noteq> ''fit''" "fm \<noteq> ''stretch''"
        by blast
      then show ?thesis
      proof cases
        case 1
        with assms Some tw have "contain lib im (tw, 10 ^ 9) = Inr im'"
          by (simp add: resize_step_def)
        from contain_Inr [OF this] show ?thesis by (auto simp: nonempty_image_def)
      next
        case 2
        obtain w h where wh: "size_wh im = (w, h)" by (cases "size_wh im")
        show ?thesis
        proof (cases "int w = tw")
          case True
          with assms Some tw 2 wh show ?thesis by (simp add: resize_step_def)
        next
          case False
          with assms Some tw 2 wh obtain n where
            "stretch_height tw w h = Inr n" "resize lib ''LANCZOS'' (tw, n) im = Inr im'"
            by (auto simp: resize_step_def and_then_Inr)
          with resize_Inr [OF this(2)] show ?thesis by (auto simp: nonempty_image_def)
        qed
      next
        case 3
        with assms Some tw show ?thesis by (simp add: resize_step_def)
      qed
    qed
  qed
  then show "mode im' = mode im" and "nonempty_image im \<Longrightarrow> nonempty_image im'" by blast+
qed

lemma load_Inr:
  assumes "load_and_prepare_image lib name tw fm bg pal d = Inr fr"
  obtains src sized where
    "open_image lib name = Inr src"
    "resize_step lib tw fm (convert_step lib bg src) = Inr sized"
    "fr = palette_step lib pal d sized"
  using assms by (auto simp: load_and_prepare_image_def and_then_Inr)

lemma load_mode:
  assumes "load_and_prepare_image lib name tw fm bg pal d = Inr fr"
    and "open_image lib name = Inr src"
  shows "mode fr = (if pal then ''P'' else mode (convert_step lib bg src))"
proof -
  from assms(1) obtain src' sized where
    s: "open_image lib name = Inr src'"
    "resize_step lib tw fm (convert_step lib bg src') = Inr sized"
    "fr = palette_step lib pal d sized"
    by (rule load_Inr)
  with assms(2) have "src' = src" by simp
  with s resize_step_cases(1) [OF s(2)] show ?thesis by (simp add: palette_step_mode)
qed

lemma load_nonempty:
  assumes "decodes_nonempty lib" "load_and_prepare_image lib name tw fm bg pal d = Inr fr"
  shows "nonempty_image fr"
proof -
  from assms(2) obtain src sized where
    s: "open_image lib name = Inr src"
    "resize_step lib tw fm (convert_step lib bg src) = Inr sized"
    "fr = palette_step lib pal d sized"
    by (rule load_Inr)
  from assms(1) s(1) have "nonempty_image src" by (auto simp: decodes_nonempty_def)
  then have "nonempty_image (convert_step lib bg src)" by (simp add: nonempty_image_def)
  then have "nonempty_image sized" by (rule resize_step_cases(2) [OF s(2)])
  with s(3) show ?thesis by (simp add: nonempty_image_def)
qed

lemma boomerang_set: "set (boomerang r fs) = set fs"
proof -
  have "x \<in> set fs" if "x \<in> set (butlast (tl fs))" for x
  proof -
    from that have "x \<in> set (tl fs)" by (rule in_set_butlastD)
    then show ?thesis by (cases fs) auto
  qed
  then show ?thesis
    by (cases "1 < length fs") (auto simp: boomerang_def slice_down_endpoints)
qed

lemma boomerang_Nil: "boomerang r fs = [] \<longleftrightarrow> fs = []"
  by (auto simp: boomerang_def)

lemma boomerang_hd: "hd (boomerang r fs) = hd fs"
  by (cases fs) (auto simp: boomerang_def)

end
